theory Spec2Isabelle
  imports Main "HOL-Library.Sublist" "HOL-Library.AList"
begin

section \<open>Python strings and the builtins the program calls\<close>

text \<open>
  A Python \<open>str\<close> is a sequence of Unicode code points: \<open>len\<close>, slicing and
  \<open>str.find\<close> count code points, not bytes. A string is therefore a list of code
  points, each a natural number.
\<close>

type_synonym pstr = "nat list"

definition ascii :: "string \<Rightarrow> pstr" where
  "ascii s = map of_char s"

text \<open>
  \<open>sub in s\<close> on strings: \<open>sub\<close> occurs in \<open>s\<close> as a contiguous substring. The empty
  string occurs in every string.
\<close>

fun py_in :: "pstr \<Rightarrow> pstr \<Rightarrow> bool" where
  "py_in sub [] = (sub = [])"
| "py_in sub (c # cs) = (prefix sub (c # cs) \<or> py_in sub cs)"

text \<open>
  \<open>s.find(sub, start)\<close> for \<open>start \<ge> 0\<close>: the lowest index \<open>i \<ge> start\<close> with
  \<open>s[i:i+len(sub)] == sub\<close>, and \<open>-1\<close> (here \<open>None\<close>) when there is none. With the empty
  \<open>sub\<close> it returns \<open>start\<close> as long as \<open>start \<le> len(s)\<close>.
\<close>

fun find_in :: "pstr \<Rightarrow> pstr \<Rightarrow> nat \<Rightarrow> nat option" where
  "find_in [] sub i = (if sub = [] then Some i else None)"
| "find_in (c # cs) sub i =
     (if prefix sub (c # cs) then Some i else find_in cs sub (Suc i))"

definition py_find :: "pstr \<Rightarrow> pstr \<Rightarrow> nat \<Rightarrow> nat option" where
  "py_find s sub start =
     (if start > length s then None else find_in (drop start s) sub start)"

text \<open>
  The characters \<open>str.strip()\<close> removes and \<open>str.isspace\<close> accepts: the Unicode
  white space of the interpreter.
\<close>

definition is_space :: "nat \<Rightarrow> bool" where
  "is_space c =
     ((0x09 \<le> c \<and> c \<le> 0x0D) \<or> (0x1C \<le> c \<and> c \<le> 0x20) \<or> c = 0x85 \<or> c = 0xA0 \<or>
      c = 0x1680 \<or> (0x2000 \<le> c \<and> c \<le> 0x200A) \<or> c = 0x2028 \<or> c = 0x2029 \<or>
      c = 0x202F \<or> c = 0x205F \<or> c = 0x3000)"

definition py_strip :: "pstr \<Rightarrow> pstr" where
  "py_strip s = rev (dropWhile is_space (rev (dropWhile is_space s)))"

text \<open>
  \<open>s.split(sep)\<close> for a separator of one character: the pieces between the
  separators, so \<open>n\<close> separators give \<open>n + 1\<close> pieces, some of them empty.
\<close>

fun py_split :: "nat \<Rightarrow> pstr \<Rightarrow> pstr list" where
  "py_split sep [] = [] # []"
| "py_split sep (c # cs) =
     (if c = sep then [] # py_split sep cs
      else case py_split sep cs of
             [] \<Rightarrow> [c] # []
           | w # ws \<Rightarrow> (c # w) # ws)"

text \<open>
  \<open>sorted(xs, key=key, reverse=True)\<close>: Python's sort is stable, and with
  \<open>reverse=True\<close> elements of equal key keep their original order. CPython obtains
  this by reversing the list, sorting it stably in ascending order and reversing
  the result.
\<close>

definition py_sorted_reverse :: "('a \<Rightarrow> nat) \<Rightarrow> 'a list \<Rightarrow> 'a list" where
  "py_sorted_reverse key xs = rev (sort_key key (rev xs))"

text \<open>
  \<open>str.lower\<close> is the full Unicode lowercasing of the interpreter; its case table
  is not part of the program. The functions below take it as the parameter
  \<open>lower\<close>, so every theorem about them holds for whatever \<open>str.lower\<close> computes.
  For concrete inputs \<open>py_lower\<close> gives \<open>str.lower\<close> on strings made of ASCII
  characters, CJK ideographs and U+0130 (LATIN CAPITAL LETTER I WITH DOT ABOVE,
  whose lowercase is the two code points U+0069 U+0307).
\<close>

definition py_lower_char :: "nat \<Rightarrow> pstr" where
  "py_lower_char c =
     (if 0x41 \<le> c \<and> c \<le> 0x5A then [c + 0x20]
      else if c = 0x130 then [0x69, 0x307]
      else [c])"

definition py_lower :: "pstr \<Rightarrow> pstr" where
  "py_lower s = concat (map py_lower_char s)"

section \<open>The keyword scan of \<open>search\<close>\<close>

text \<open>
  A match is the dictionary \<open>{"start": idx, "end": idx + len(keyword_lower)}\<close>.
\<close>

type_synonym span = "nat \<times> nat"

text \<open>
  The \<open>while True\<close> loop of \<open>search\<close>. Its state is \<open>start\<close> and the list
  \<open>matched_articles[article_title]["matches"]\<close> it appends to. The source has no
  bound on the loop, so the model is a partial function: \<open>None\<close> is a scan that
  never leaves the loop.
\<close>

partial_function (option) scan_matches ::
  "pstr \<Rightarrow> pstr \<Rightarrow> nat \<Rightarrow> span list \<Rightarrow> span list option" where
  "scan_matches text_lower keyword_lower start matches =
     (case py_find text_lower keyword_lower start of
        None \<Rightarrow> Some matches
      | Some idx \<Rightarrow>
          scan_matches text_lower keyword_lower (idx + length keyword_lower)
            (matches @ [(idx, idx + length keyword_lower)]))"

declare scan_matches.simps [code]

section \<open>The index records\<close>

datatype py_error = KeyError string

datatype year_val = YearStr pstr | YearInt int

datatype item_type = Chapter | Article

text \<open>One element of \<open>law["content"]\<close>: the keys \<open>type\<close>, \<open>content\<close>, \<open>page\<close>.\<close>

record item =
  item_type :: item_type
  item_content :: pstr
  item_page :: nat

text \<open>
  One element of \<open>data["laws"]\<close>. It is a dictionary, so a key may be absent:
  \<open>None\<close> is the absent key.
\<close>

record law =
  law_title :: "pstr option"
  law_year :: "year_val option"
  law_filename :: "pstr option"
  law_content :: "item list option"
  law_total_pages :: "nat option"
  law_last_modified :: "pstr option"

text \<open>The value stored under a label in \<open>matched_articles\<close>.\<close>

record article_data =
  ad_title :: pstr
  ad_content :: pstr
  ad_matches :: "span list"

text \<open>One element of \<open>matched_pages\<close>, and one element of \<open>results\<close>.\<close>

record matched_page =
  page_title :: pstr
  snippet :: pstr
  matched_term :: pstr
  match_count :: nat

record search_result =
  res_title :: pstr
  res_year :: year_val
  res_filename :: pstr
  res_total_pages :: nat
  res_matched_pages :: "matched_page list"
  res_total_matches :: nat

section \<open>\<open>extract_article_title\<close>\<close>

definition DI :: nat where "DI = 0x7B2C"
definition ZHANG :: nat where "ZHANG = 0x7AE0"
definition TIAO :: nat where "TIAO = 0x6761"

text \<open>The character class of the two patterns, the thirteen Chinese numerals.\<close>

definition numerals :: "nat list" where
  "numerals = [0x96F6, 0x4E00, 0x4E8C, 0x4E09, 0x56DB, 0x4E94, 0x516D, 0x4E03,
               0x516B, 0x4E5D, 0x5341, 0x767E, 0x5343]"

text \<open>
  The pattern \<open>DI [numerals]+ closing\<close> matched at the head of \<open>s\<close>. The closing
  glyph is not a numeral, so the greedy \<open>+\<close> takes the whole run of numerals and
  no backtracking can give another match.
\<close>

definition match_here :: "nat \<Rightarrow> pstr \<Rightarrow> pstr option" where
  "match_here closing s =
     (case s of
        [] \<Rightarrow> None
      | c # rest \<Rightarrow>
          (let run = takeWhile (\<lambda>d. d \<in> set numerals) rest;
               after = dropWhile (\<lambda>d. d \<in> set numerals) rest
           in if c = DI \<and> run \<noteq> [] \<and> take 1 after = [closing]
              then Some (c # run @ [closing]) else None))"

text \<open>\<open>re.search\<close>: the match at the leftmost position that has one.\<close>

fun re_search :: "nat \<Rightarrow> pstr \<Rightarrow> pstr option" where
  "re_search closing [] = None"
| "re_search closing (c # cs) =
     (case match_here closing (c # cs) of
        Some m \<Rightarrow> Some m
      | None \<Rightarrow> re_search closing cs)"

definition extract_article_title :: "pstr \<Rightarrow> pstr" where
  "extract_article_title content =
     (case re_search TIAO content of
        Some m \<Rightarrow> m
      | None \<Rightarrow>
          (case re_search ZHANG content of
             Some m \<Rightarrow> m
           | None \<Rightarrow>
               if length content > 30 then take 30 content @ ascii ''...''
               else content))"

section \<open>\<open>highlight_all_keywords\<close>\<close>

definition span_open :: pstr where
  "span_open = ascii ''<span class='' @ [0x22] @ ascii ''highlight'' @ [0x22] @ ascii ''>''"

definition span_close :: pstr where
  "span_close = ascii ''</span>''"

text \<open>
  One round of the loop. Slices clamp at the end of the string, as \<open>take\<close> and
  \<open>drop\<close> do, and \<open>s[start:end]\<close> is empty when \<open>end \<le> start\<close>.
\<close>

definition insert_highlight :: "pstr \<Rightarrow> span \<Rightarrow> pstr" where
  "insert_highlight highlighted_text m =
     (case m of (start, end) \<Rightarrow>
        take start highlighted_text @
        span_open @ drop start (take end highlighted_text) @ span_close @
        drop end highlighted_text)"

definition highlight_all_keywords :: "pstr \<Rightarrow> span list \<Rightarrow> pstr \<Rightarrow> pstr" where
  "highlight_all_keywords text matches keyword =
     foldl insert_highlight text (py_sorted_reverse fst matches)"

section \<open>\<open>search\<close>\<close>

text \<open>
  The body of \<open>for item in law["content"]\<close>. \<open>matched_articles\<close> is a dictionary in
  insertion order: an association list, where \<open>AList.update\<close> replaces the value of
  a key in place and puts a new key at the end. The entry of the label is created
  with no matches when the label is new, then the scan appends to its matches;
  the content of an entry that exists is not touched.
\<close>

definition scan_item ::
  "(pstr \<Rightarrow> pstr) \<Rightarrow> pstr \<Rightarrow> (pstr \<times> article_data) list \<Rightarrow> item \<Rightarrow>
   (pstr \<times> article_data) list option" where
  "scan_item lower keyword_lower matched_articles it =
     (let content = item_content it;
          text_lower = lower content
      in if py_in keyword_lower text_lower then
           (let article_title = extract_article_title content;
                entry = (case map_of matched_articles article_title of
                           None \<Rightarrow> \<lparr>ad_title = article_title, ad_content = content,
                                     ad_matches = []\<rparr>
                         | Some d \<Rightarrow> d)
            in case scan_matches text_lower keyword_lower 0 (ad_matches entry) of
                 None \<Rightarrow> None
               | Some ms \<Rightarrow>
                   Some (AList.update article_title (entry\<lparr>ad_matches := ms\<rparr>)
                           matched_articles))
         else Some matched_articles)"

fun scan_items ::
  "(pstr \<Rightarrow> pstr) \<Rightarrow> pstr \<Rightarrow> (pstr \<times> article_data) list \<Rightarrow> item list \<Rightarrow>
   (pstr \<times> article_data) list option" where
  "scan_items lower keyword_lower matched_articles [] = Some matched_articles"
| "scan_items lower keyword_lower matched_articles (it # its) =
     (case scan_item lower keyword_lower matched_articles it of
        None \<Rightarrow> None
      | Some matched_articles' \<Rightarrow> scan_items lower keyword_lower matched_articles' its)"

text \<open>The body of \<open>for article_title, article_data in matched_articles.items()\<close>.\<close>

definition make_page :: "pstr \<Rightarrow> pstr \<times> article_data \<Rightarrow> matched_page" where
  "make_page keyword kv =
     (case kv of (article_title, article_data) \<Rightarrow>
        \<lparr>page_title = article_title,
         snippet = highlight_all_keywords (ad_content article_data)
                     (ad_matches article_data) keyword,
         matched_term = keyword,
         match_count = length (ad_matches article_data)\<rparr>)"

text \<open>
  The dictionary appended to \<open>results\<close>. \<open>law["title"]\<close>, \<open>law["year"]\<close> and
  \<open>law["filename"]\<close> raise \<open>KeyError\<close> on an absent key, in this order;
  \<open>law.get("total_pages", 1)\<close> does not.
\<close>

definition make_result :: "law \<Rightarrow> matched_page list \<Rightarrow> py_error + search_result" where
  "make_result law matched_pages =
     (case law_title law of
        None \<Rightarrow> Inl (KeyError ''title'')
      | Some title \<Rightarrow>
     (case law_year law of
        None \<Rightarrow> Inl (KeyError ''year'')
      | Some year \<Rightarrow>
     (case law_filename law of
        None \<Rightarrow> Inl (KeyError ''filename'')
      | Some filename \<Rightarrow>
          Inr \<lparr>res_title = title, res_year = year, res_filename = filename,
               res_total_pages = (case law_total_pages law of None \<Rightarrow> 1 | Some n \<Rightarrow> n),
               res_matched_pages = matched_pages,
               res_total_matches = sum_list (map match_count matched_pages)\<rparr>)))"

text \<open>
  The test \<open>law_type != "all" and law["title"].lower() != law_type.lower()\<close>: the
  title is read only when the filter is not \<open>"all"\<close>.
\<close>

definition skip_law :: "(pstr \<Rightarrow> pstr) \<Rightarrow> pstr \<Rightarrow> law \<Rightarrow> py_error + bool" where
  "skip_law lower law_type law =
     (if law_type = ascii ''all'' then Inr False
      else case law_title law of
             None \<Rightarrow> Inl (KeyError ''title'')
           | Some title \<Rightarrow> Inr (lower title \<noteq> lower law_type))"

text \<open>
  One round of \<open>for law in data["laws"]\<close>: an error, no result for this law, or
  the result to append. \<open>None\<close> is a round that never ends.
\<close>

definition search_in_law ::
  "(pstr \<Rightarrow> pstr) \<Rightarrow> pstr \<Rightarrow> pstr \<Rightarrow> law \<Rightarrow> (py_error + search_result option) option" where
  "search_in_law lower keyword law_type law =
     (case skip_law lower law_type law of
        Inl e \<Rightarrow> Some (Inl e)
      | Inr True \<Rightarrow> Some (Inr None)
      | Inr False \<Rightarrow>
          (case law_content law of
             None \<Rightarrow> Some (Inl (KeyError ''content''))
           | Some items \<Rightarrow>
               (case scan_items lower (lower keyword) [] items of
                  None \<Rightarrow> None
                | Some matched_articles \<Rightarrow>
                    (let matched_pages = map (make_page keyword) matched_articles
                     in if matched_pages = [] then Some (Inr None)
                        else (case make_result law matched_pages of
                                Inl e \<Rightarrow> Some (Inl e)
                              | Inr r \<Rightarrow> Some (Inr (Some r)))))))"

fun search_in_laws ::
  "(pstr \<Rightarrow> pstr) \<Rightarrow> pstr \<Rightarrow> pstr \<Rightarrow> search_result list \<Rightarrow> law list \<Rightarrow>
   (py_error + search_result list) option" where
  "search_in_laws lower keyword law_type results [] = Some (Inr results)"
| "search_in_laws lower keyword law_type results (law # laws) =
     (case search_in_law lower keyword law_type law of
        None \<Rightarrow> None
      | Some (Inl e) \<Rightarrow> Some (Inl e)
      | Some (Inr None) \<Rightarrow> search_in_laws lower keyword law_type results laws
      | Some (Inr (Some r)) \<Rightarrow> search_in_laws lower keyword law_type (results @ [r]) laws)"

text \<open>
  \<open>search\<close> from \<open>results = []\<close> on; \<open>laws\<close> is \<open>data["laws"]\<close> of the index that was
  loaded. The result is \<open>None\<close> when the call never returns, \<open>Some (Inl e)\<close> when it
  raises \<open>e\<close>, and \<open>Some (Inr rs)\<close> when it returns the list \<open>rs\<close>.
\<close>

definition search ::
  "(pstr \<Rightarrow> pstr) \<Rightarrow> pstr \<Rightarrow> pstr \<Rightarrow> law list \<Rightarrow> (py_error + search_result list) option" where
  "search lower keyword law_type laws =
     (case search_in_laws lower keyword law_type [] laws of
        None \<Rightarrow> None
      | Some (Inl e) \<Rightarrow> Some (Inl e)
      | Some (Inr results) \<Rightarrow>
          Some (Inr (if results = [] then []
                     else py_sorted_reverse res_total_matches results)))"

section \<open>The route \<open>/api/search\<close>\<close>

text \<open>
  \<open>search_law\<close> of the web application: both arguments are read with a default
  and stripped, then passed to \<open>search\<close>; an exception becomes the error response
  with status 500. \<open>None\<close> is a request that is never answered.
\<close>

datatype response =
  Success pstr pstr nat "search_result list"
| ServerError py_error

definition search_law ::
  "(pstr \<Rightarrow> pstr) \<Rightarrow> pstr option \<Rightarrow> pstr option \<Rightarrow> law list \<Rightarrow> response option" where
  "search_law lower q type_arg laws =
     (let keyword = py_strip (case q of None \<Rightarrow> [] | Some v \<Rightarrow> v);
          law_type = py_strip (case type_arg of None \<Rightarrow> ascii ''all'' | Some v \<Rightarrow> v)
      in case search lower keyword law_type laws of
           None \<Rightarrow> None
         | Some (Inl e) \<Rightarrow> Some (ServerError e)
         | Some (Inr results) \<Rightarrow> Some (Success keyword law_type (length results) results))"

section \<open>\<open>extract_pdf_content\<close>\<close>

text \<open>
  The state of the loops: the list \<open>articles\<close> and the variable
  \<open>current_article\<close>. The variable refers to a dictionary that is also an element
  of the list, and \<open>current_article["content"] += ...\<close> changes that element; it
  is modelled as the index of the element, \<open>None\<close> for Python's \<open>None\<close>.
\<close>

record parse_state =
  articles :: "item list"
  current_article :: "nat option"

text \<open>
  The body of \<open>for line in lines\<close> on page \<open>page_num\<close> (counted from 0). A dictionary
  with keys is true, so \<open>current_article and line\<close> asks for an article and a
  non-empty line.
\<close>

definition process_line :: "nat \<Rightarrow> parse_state \<Rightarrow> pstr \<Rightarrow> parse_state" where
  "process_line page_num st raw =
     (let line = py_strip raw
      in if DI \<in> set line \<and> ZHANG \<in> set line then
           \<lparr>articles = articles st @
              [\<lparr>item_type = Chapter, item_content = line, item_page = page_num + 1\<rparr>],
            current_article = None\<rparr>
         else if DI \<in> set line \<and> TIAO \<in> set line then
           \<lparr>articles = articles st @
              [\<lparr>item_type = Article, item_content = line @ [0x20], item_page = page_num + 1\<rparr>],
            current_article = Some (length (articles st))\<rparr>
         else (case current_article st of
                 None \<Rightarrow> st
               | Some i \<Rightarrow>
                   if line \<noteq> [] then
                     st\<lparr>articles := (articles st)
                          [i := (articles st ! i)
                             \<lparr>item_content := item_content (articles st ! i) @ line @ [0x20]\<rparr>]\<rparr>
                   else st))"

text \<open>The body of \<open>for page_num, page in enumerate(doc)\<close>.\<close>

definition process_page :: "parse_state \<Rightarrow> nat \<times> pstr \<Rightarrow> parse_state" where
  "process_page st p =
     (case p of (page_num, text) \<Rightarrow>
        if py_strip text \<noteq> [] then foldl (process_line page_num) st (py_split 0x0A text)
        else st)"

definition process_pages :: "pstr list \<Rightarrow> parse_state" where
  "process_pages pages =
     foldl process_page \<lparr>articles = [], current_article = None\<rparr> (enumerate 0 pages)"

text \<open>
  \<open>os.path.splitext(p)[0]\<close> for a name without directory separator: the name up to
  its last dot, unless only dots stand before that dot.
\<close>

definition splitext_root :: "pstr \<Rightarrow> pstr" where
  "splitext_root p =
     (if 0x2E \<notin> set p then p
      else (let dot_index = length p - Suc (length (takeWhile (\<lambda>c. c \<noteq> 0x2E) (rev p)))
            in if list_all (\<lambda>c. c = 0x2E) (take dot_index p) then p
               else take dot_index p))"

text \<open>
  What the file system and the text extraction give for one path: the page texts
  of the document, or \<open>None\<close> when \<open>fitz.open\<close> or \<open>get_text\<close> raises, and the
  modification date as \<open>strftime\<close> formats it, or \<open>None\<close> when \<open>os.path.getmtime\<close>
  raises.
\<close>

record source_file =
  file_pages :: "pstr list option"
  file_mtime :: "pstr option"

text \<open>
  \<open>extract_pdf_content\<close>. \<open>filename\<close> is \<open>os.path.basename(pdf_path)\<close> and \<open>this_year\<close>
  is \<open>datetime.now().year\<close>. Every exception inside the \<open>try\<close> ends in
  \<open>return None\<close>.
\<close>

definition extract_pdf_content :: "int \<Rightarrow> pstr \<Rightarrow> source_file \<Rightarrow> law option" where
  "extract_pdf_content this_year filename file =
     (case file_pages file of
        None \<Rightarrow> None
      | Some pages \<Rightarrow>
          (let st = process_pages pages
           in if articles st = [] then None
              else (case file_mtime file of
                      None \<Rightarrow> None
                    | Some modified \<Rightarrow>
                        (let parts = py_split 0x5F (splitext_root filename)
                         in Some \<lparr>law_title =
                                    Some (case parts of
                                            [] \<Rightarrow> [0x672A, 0x77E5, 0x6CD5, 0x5F8B]
                                          | p # ps \<Rightarrow> p),
                                  law_year =
                                    Some (case parts of
                                            p # y # ps \<Rightarrow> YearStr y
                                          | _ \<Rightarrow> YearInt this_year),
                                  law_filename = Some filename,
                                  law_content = Some (articles st),
                                  law_total_pages = Some (length pages),
                                  law_last_modified = Some modified\<rparr>))))"

section \<open>\<open>build_index\<close>\<close>

record index_metadata =
  meta_index_date :: pstr
  meta_total_count :: nat
  meta_source :: pstr
  meta_invalid_files :: "pstr list"

record index_artifact =
  idx_metadata :: index_metadata
  idx_laws :: "law list"

definition accepted :: "(pstr \<Rightarrow> pstr) \<Rightarrow> pstr \<Rightarrow> bool" where
  "accepted lower filename \<longleftrightarrow>
     suffix (ascii ''.pdf'') (lower filename) \<or> suffix (ascii ''.docx'') (lower filename)"

text \<open>
  The loop \<open>for filename in os.listdir(self.pdf_dir)\<close> over the entries of the
  directory, each with what the file system holds under that name.
\<close>

fun index_files ::
  "(pstr \<Rightarrow> pstr) \<Rightarrow> int \<Rightarrow> law list \<Rightarrow> pstr list \<Rightarrow> (pstr \<times> source_file) list \<Rightarrow>
   law list \<times> pstr list" where
  "index_files lower this_year index_data invalid_files [] = (index_data, invalid_files)"
| "index_files lower this_year index_data invalid_files ((filename, file) # rest) =
     (if accepted lower filename then
        (case extract_pdf_content this_year filename file of
           Some law_info \<Rightarrow>
             index_files lower this_year (index_data @ [law_info]) invalid_files rest
         | None \<Rightarrow>
             index_files lower this_year index_data (invalid_files @ [filename]) rest)
      else index_files lower this_year index_data invalid_files rest)"

text \<open>
  \<open>build_index\<close>: the list it returns and the index it writes, if it writes one.
  \<open>pdf_dir\<close> is the listing of the directory, \<open>None\<close> when the directory does not
  exist; \<open>now\<close> is the formatted time of the build. Creating the directory of the
  index file and writing the file are taken to succeed.
\<close>

definition build_index ::
  "(pstr \<Rightarrow> pstr) \<Rightarrow> int \<Rightarrow> pstr \<Rightarrow> (pstr \<times> source_file) list option \<Rightarrow>
   law list \<times> index_artifact option" where
  "build_index lower this_year now pdf_dir =
     (case pdf_dir of
        None \<Rightarrow> ([], None)
      | Some entries \<Rightarrow>
          (case index_files lower this_year [] [] entries of
             (index_data, invalid_files) \<Rightarrow>
               (index_data,
                Some \<lparr>idx_metadata =
                        \<lparr>meta_index_date = now,
                         meta_total_count = length index_data,
                         meta_source = [0x672C, 0x5730, 0x6587, 0x4EF6],
                         meta_invalid_files = invalid_files\<rparr>,
                      idx_laws = index_data\<rparr>)))"

section \<open>Facts about the builtins\<close>

lemma find_in_Some:
  "find_in s sub i = Some j \<Longrightarrow>
     i \<le> j \<and> (j - i) + length sub \<le> length s \<and> prefix sub (drop (j - i) s)"
proof (induction s arbitrary: i)
  case Nil
  then show ?case by (simp split: if_splits)
next
  case (Cons c cs)
  show ?case
  proof (cases "prefix sub (c # cs)")
    case True
    with Cons.prems have "j = i" by simp
    with prefix_length_le [OF True] True show ?thesis by simp
  next
    case False
    with Cons.prems have "find_in cs sub (Suc i) = Some j" by simp
    from Cons.IH [OF this]
    have a: "Suc i \<le> j" and b: "(j - Suc i) + length sub \<le> length cs"
      and c: "prefix sub (drop (j - Suc i) cs)" by auto
    from a have d: "j - i = Suc (j - Suc i)" by arith
    from a b c show ?thesis unfolding d by simp
  qed
qed

lemma py_find_Some:
  assumes "py_find s sub start = Some idx"
  shows "start \<le> idx" and "idx + length sub \<le> length s" and "prefix sub (drop idx s)"
proof -
  from assms have le: "start \<le> length s"
    and f: "find_in (drop start s) sub start = Some idx"
    by (auto simp: py_find_def split: if_splits)
  from find_in_Some [OF f] have a: "start \<le> idx"
    and b: "(idx - start) + length sub \<le> length s - start"
    and c: "prefix sub (drop (idx - start) (drop start s))"
    by auto
  show "start \<le> idx" by (rule a)
  from a b le show "idx + length sub \<le> length s" by arith
  from a c show "prefix sub (drop idx s)" by simp
qed

lemma find_in_leftmost:
  "find_in s sub i = Some j \<Longrightarrow> k < j - i \<Longrightarrow> \<not> prefix sub (drop k s)"
proof (induction s arbitrary: i k)
  case Nil
  then show ?case by (simp split: if_splits)
next
  case (Cons c cs)
  show ?case
  proof (cases "prefix sub (c # cs)")
    case True
    with Cons.prems show ?thesis by simp
  next
    case False
    with Cons.prems have f: "find_in cs sub (Suc i) = Some j" by simp
    show ?thesis
    proof (cases k)
      case 0
      with False show ?thesis by simp
    next
      case (Suc k')
      with Cons.prems(2) have "k' < j - Suc i" by arith
      from Cons.IH [OF f this] Suc show ?thesis by simp
    qed
  qed
qed

lemma find_in_None:
  "find_in s sub i = None \<Longrightarrow> \<not> prefix sub (drop k s)"
proof (induction s arbitrary: i k)
  case Nil
  then show ?case by (simp split: if_splits)
next
  case (Cons c cs)
  from Cons.prems have np: "\<not> prefix sub (c # cs)" and f: "find_in cs sub (Suc i) = None"
    by (simp_all split: if_splits)
  show ?case
  proof (cases k)
    case 0
    with np show ?thesis by simp
  next
    case (Suc k')
    from Cons.IH [OF f, of k'] Suc show ?thesis by simp
  qed
qed

lemma py_find_leftmost:
  assumes "py_find s sub start = Some idx" and "start \<le> p" and "p < idx"
  shows "\<not> prefix sub (drop p s)"
proof -
  from assms(1) have f: "find_in (drop start s) sub start = Some idx"
    by (auto simp: py_find_def split: if_splits)
  from assms(2,3) have "p - start < idx - start" by arith
  from find_in_leftmost [OF f this] assms(2) show ?thesis by simp
qed

lemma py_find_None:
  assumes "py_find s sub start = None" and "start \<le> p" and "sub \<noteq> []"
  shows "\<not> prefix sub (drop p s)"
proof (cases "start > length s")
  case True
  with assms(2) have "drop p s = []" by simp
  with assms(3) show ?thesis by simp
next
  case False
  with assms(1) have f: "find_in (drop start s) sub start = None"
    by (simp add: py_find_def)
  from find_in_None [OF f, of "p - start"] assms(2) show ?thesis by simp
qed

section \<open>The scan with a non-empty keyword\<close>

text \<open>
  The occurrences the loop records from \<open>start\<close> on, as a total function: with a
  non-empty keyword every round moves \<open>start\<close> forward, so the recursion ends. It
  is used to state what \<open>scan_matches\<close> returns.
\<close>

function occurrences :: "pstr \<Rightarrow> pstr \<Rightarrow> nat \<Rightarrow> span list" where
  "occurrences t kw start =
     (if kw = [] then []
      else case py_find t kw start of
             None \<Rightarrow> []
           | Some idx \<Rightarrow> (idx, idx + length kw) # occurrences t kw (idx + length kw))"
  by pat_completeness auto
termination
proof (relation "measure (\<lambda>(t, kw, start). Suc (length t) - start)")
  show "wf (measure (\<lambda>(t, kw, start). Suc (length t) - start))" by simp
next
  fix t kw :: pstr and start idx :: nat
  assume "kw \<noteq> []" and "py_find t kw start = Some idx"
  from py_find_Some [OF this(2)] \<open>kw \<noteq> []\<close>
  show "((t, kw, idx + length kw), (t, kw, start))
          \<in> measure (\<lambda>(t, kw, start). Suc (length t) - start)"
    by (cases kw) auto
qed

declare occurrences.simps [simp del]

lemma scan_matches_occurrences:
  "kw \<noteq> [] \<Longrightarrow> scan_matches t kw start acc = Some (acc @ occurrences t kw start)"
proof (induction t kw start arbitrary: acc rule: occurrences.induct)
  case (1 t kw start)
  show ?case
  proof (cases "py_find t kw start")
    case None
    then show ?thesis
      using "1.prems" by (subst scan_matches.simps, subst occurrences.simps) simp
  next
    case (Some idx)
    from "1.IH" [OF "1.prems" Some "1.prems"]
    have "scan_matches t kw (idx + length kw) (acc @ [(idx, idx + length kw)])
            = Some ((acc @ [(idx, idx + length kw)]) @ occurrences t kw (idx + length kw))" .
    with Some "1.prems" show ?thesis
      by (subst scan_matches.simps, subst occurrences.simps) simp
  qed
qed

lemma occurrences_props:
  "kw \<noteq> [] \<Longrightarrow>
     (\<forall>m \<in> set (occurrences t kw start).
        start \<le> fst m \<and> snd m = fst m + length kw \<and> snd m \<le> length t \<and>
        take (length kw) (drop (fst m) t) = kw) \<and>
     sorted_wrt (\<lambda>a b. snd a \<le> fst b) (occurrences t kw start)"
proof (induction t kw start rule: occurrences.induct)
  case (1 t kw start)
  show ?case
  proof (cases "py_find t kw start")
    case None
    then show ?thesis using "1.prems" by (subst occurrences.simps, subst occurrences.simps) simp
  next
    case (Some idx)
    note ih = "1.IH" [OF "1.prems" Some "1.prems"]
    note f = py_find_Some [OF Some]
    have eq: "occurrences t kw start = (idx, idx + length kw) # occurrences t kw (idx + length kw)"
      using Some "1.prems" by (subst occurrences.simps) simp
    have tk: "take (length kw) (drop idx t) = kw"
      using f(3) by (auto simp: prefix_def)
    show ?thesis
      unfolding eq using ih f tk by auto
  qed
qed

lemma occurrences_cover:
  "kw \<noteq> [] \<Longrightarrow> start \<le> p \<Longrightarrow> prefix kw (drop p t) \<Longrightarrow>
     \<exists>m \<in> set (occurrences t kw start). fst m \<le> p \<and> p < snd m"
proof (induction t kw start rule: occurrences.induct)
  case (1 t kw start)
  show ?case
  proof (cases "py_find t kw start")
    case None
    from py_find_None [OF None "1.prems"(2) "1.prems"(1)] "1.prems"(3) show ?thesis by simp
  next
    case (Some idx)
    have eq: "occurrences t kw start = (idx, idx + length kw) # occurrences t kw (idx + length kw)"
      using Some "1.prems"(1) by (subst occurrences.simps) simp
    have le: "idx \<le> p"
    proof (rule ccontr)
      assume "\<not> idx \<le> p"
      then have "p < idx" by simp
      from py_find_leftmost [OF Some "1.prems"(2) this] "1.prems"(3) show False by simp
    qed
    show ?thesis
    proof (cases "p < idx + length kw")
      case True
      with le show ?thesis unfolding eq by simp
    next
      case False
      then have "idx + length kw \<le> p" by simp
      from "1.IH" [OF "1.prems"(1) Some "1.prems"(1) this "1.prems"(3)]
      show ?thesis unfolding eq by auto
    qed
  qed
qed

text \<open>
  C4. With a non-empty (lowercased) keyword the scan of one unit returns, and
  what it appends to the matches of the entry is a list of spans, each of the
  length of the keyword, each inside the lowercased text and holding the keyword
  there, in which every span starts at or after the end of every span recorded
  before it: no two of them overlap. No occurrence is passed over: wherever the
  keyword stands in the lowercased text, a recorded span covers that offset.
\<close>

theorem scan_matches_non_overlapping:
  assumes "keyword_lower \<noteq> []"
  shows "\<exists>ms. scan_matches text_lower keyword_lower 0 matches = Some (matches @ ms) \<and>
              (\<forall>m \<in> set ms. snd m = fst m + length keyword_lower \<and>
                            snd m \<le> length text_lower \<and>
                            take (length keyword_lower) (drop (fst m) text_lower) = keyword_lower) \<and>
              sorted_wrt (\<lambda>a b. snd a \<le> fst b) ms \<and>
              (\<forall>p. prefix keyword_lower (drop p text_lower) \<longrightarrow>
                     (\<exists>m \<in> set ms. fst m \<le> p \<and> p < snd m))"
proof -
  let ?ms = "occurrences text_lower keyword_lower 0"
  have run: "scan_matches text_lower keyword_lower 0 matches = Some (matches @ ?ms)"
    by (rule scan_matches_occurrences [OF assms])
  from occurrences_props [OF assms, of text_lower 0]
  have each: "\<forall>m \<in> set ?ms. snd m = fst m + length keyword_lower \<and>
                            snd m \<le> length text_lower \<and>
                            take (length keyword_lower) (drop (fst m) text_lower) = keyword_lower"
    and chain: "sorted_wrt (\<lambda>a b. snd a \<le> fst b) ?ms"
    by blast+
  have cover: "\<forall>p. prefix keyword_lower (drop p text_lower) \<longrightarrow>
                     (\<exists>m \<in> set ?ms. fst m \<le> p \<and> p < snd m)"
    using occurrences_cover [OF assms, of 0 _ text_lower] by simp
  from run each chain cover show ?thesis by blast
qed

theorem scan_matches_non_overlapping_witness:
  "ascii ''abc'' \<noteq> [] \<and>
   scan_matches (ascii ''abcabc'') (ascii ''abc'') 0 [] = Some [(0, 3), (3, 6)] \<and>
   (\<exists>ms. scan_matches (ascii ''abcabc'') (ascii ''abc'') 0 [] = Some ([] @ ms) \<and>
         (\<forall>m \<in> set ms. snd m = fst m + length (ascii ''abc'') \<and>
                       snd m \<le> length (ascii ''abcabc'') \<and>
                       take (length (ascii ''abc'')) (drop (fst m) (ascii ''abcabc'')) = ascii ''abc'') \<and>
         sorted_wrt (\<lambda>a b. snd a \<le> fst b) ms)"
proof -
  have ne: "ascii ''abc'' \<noteq> []" by (simp add: ascii_def)
  have ev: "scan_matches (ascii ''abcabc'') (ascii ''abc'') 0 [] = Some [(0, 3), (3, 6)]"
    by code_simp
  from ne ev scan_matches_non_overlapping [OF ne, of "ascii ''abcabc''" "[]"]
  show ?thesis by blast
qed

section \<open>The scan with the empty keyword\<close>

text \<open>
  \<open>"" in text_lower\<close> is true, and \<open>text_lower.find("", start)\<close> returns \<open>start\<close>, so
  the loop records the span \<open>(start, start)\<close> and searches again from \<open>start\<close>.
\<close>

lemma py_in_Nil: "py_in [] s"
  by (cases s) simp_all

lemma scan_matches_Some_nonempty:
  assumes "scan_matches t kw start acc = Some r"
  shows "\<not> (kw = [] \<and> start \<le> length t)"
proof (rule scan_matches.raw_induct
         [where P = "\<lambda>t kw start acc r. \<not> (kw = [] \<and> start \<le> length t)", OF _ assms])
  fix scan :: "pstr \<Rightarrow> pstr \<Rightarrow> nat \<Rightarrow> span list \<Rightarrow> span list option"
    and t kw :: pstr and start :: nat and acc r :: "span list"
  assume ih: "\<And>t kw start acc r.
                scan t kw start acc = Some r \<Longrightarrow> \<not> (kw = [] \<and> start \<le> length t)"
    and step: "(case py_find t kw start of
                  None \<Rightarrow> Some acc
                | Some idx \<Rightarrow>
                    scan t kw (idx + length kw) (acc @ [(idx, idx + length kw)])) = Some r"
  show "\<not> (kw = [] \<and> start \<le> length t)"
  proof
    assume a: "kw = [] \<and> start \<le> length t"
    then have "py_find t kw start = Some start"
      by (cases "drop start t") (auto simp: py_find_def)
    with step a have "scan t kw start (acc @ [(start, start)]) = Some r" by simp
    from ih [OF this] a show False by simp
  qed
qed

lemma scan_matches_empty_keyword:
  assumes "start \<le> length t"
  shows "scan_matches t [] start acc = None"
  using scan_matches_Some_nonempty [of t "[]" start acc] assms
  by (cases "scan_matches t [] start acc") auto

lemma scan_item_empty_keyword:
  "scan_item lower [] matched_articles it = None"
  by (simp add: scan_item_def Let_def py_in_Nil scan_matches_empty_keyword)

section \<open>Example index records\<close>

definition article_one :: pstr where
  "article_one = [DI, 0x4E00, TIAO]"

definition law_of :: "item list \<Rightarrow> law" where
  "law_of items =
     \<lparr>law_title = Some [0x5211, 0x6CD5],
      law_year = Some (YearStr (ascii ''1997'')),
      law_filename = Some ([0x5211, 0x6CD5] @ ascii ''_1997.docx''),
      law_content = Some items,
      law_total_pages = Some 1,
      law_last_modified = Some (ascii ''2024-01-01'')\<rparr>"

definition article_item :: "pstr \<Rightarrow> item" where
  "article_item t = \<lparr>item_type = Article, item_content = t, item_page = 1\<rparr>"

text \<open>
  An article whose text holds U+0130, which \<open>str.lower\<close> turns into two code
  points: the lowercased text is one longer than the text.
\<close>

definition dotted_text :: pstr where
  "dotted_text = article_one @ [0x20, 0x130] @ ascii ''abc ''"

lemmas eval_defs = search_def search_in_law_def skip_law_def law_of_def article_item_def
  scan_item_def Let_def make_page_def make_result_def py_sorted_reverse_def
  highlight_all_keywords_def insert_highlight_def extract_article_title_def match_here_def
  numerals_def py_lower_def py_lower_char_def py_find_def scan_matches.simps
  dotted_text_def article_one_def DI_def TIAO_def ZHANG_def ascii_def span_open_def
  span_close_def

section \<open>C1: the empty keyword\<close>

text \<open>
  C1. The claim is that an empty or whitespace-only keyword gives an empty list
  of results. On an index of one law with one article, \<open>search\<close> with the empty
  keyword never returns, and the route, which strips a keyword of three spaces to
  the empty one, never answers.
\<close>

theorem search_empty_keyword_never_returns:
  "search py_lower [] (ascii ''all'') [law_of [article_item (article_one @ ascii '' ab '')]] =
     None \<and>
   search_law py_lower (Some (ascii ''   '')) None
     [law_of [article_item (article_one @ ascii '' ab '')]] = None"
  by (simp add: search_law_def search_def search_in_law_def skip_law_def law_of_def
        py_lower_def scan_item_empty_keyword py_strip_def is_space_def ascii_def)

section \<open>C5: offsets of the lowercased text applied to the text\<close>

text \<open>
  C5. The claim is that every recorded span addresses the keyword in the
  original text. For the text \<open>dotted_text\<close> and the keyword \<open>abc\<close> the scan finds
  the keyword at offset 6 of the lowercased text; in the text itself the keyword
  is at offset 5, and the span \<open>(6, 9)\<close> holds \<open>bc\<close> and the space after it, which
  is what the snippet highlights.
\<close>

theorem search_span_misses_keyword:
  "scan_items py_lower (py_lower (ascii ''abc'')) [] [article_item dotted_text] =
     Some [(article_one, \<lparr>ad_title = article_one, ad_content = dotted_text,
                          ad_matches = [(6, 9)]\<rparr>)] \<and>
   drop 6 (take 9 dotted_text) = ascii ''bc '' \<and>
   drop 5 (take 8 dotted_text) = ascii ''abc'' \<and>
   search py_lower (ascii ''abc'') (ascii ''all'') [law_of [article_item dotted_text]] =
     Some (Inr [\<lparr>res_title = [0x5211, 0x6CD5], res_year = YearStr (ascii ''1997''),
                 res_filename = [0x5211, 0x6CD5] @ ascii ''_1997.docx'', res_total_pages = 1,
                 res_matched_pages =
                   [\<lparr>page_title = article_one,
                     snippet = article_one @ [0x20, 0x130, 0x61] @ span_open @
                               ascii ''bc '' @ span_close,
                     matched_term = ascii ''abc'', match_count = 1\<rparr>],
                 res_total_matches = 1\<rparr>])"
  by (simp add: eval_defs)

text \<open>
  When lowercasing works character by character, and so keeps the length of a
  string, every recorded span lies inside the text and holds the keyword there up
  to case.
\<close>

lemma occurrences_address_text:
  assumes "map f keyword \<noteq> []" and "m \<in> set (occurrences (map f content) (map f keyword) 0)"
  shows "snd m \<le> length content \<and>
         map f (drop (fst m) (take (snd m) content)) = map f keyword"
proof -
  from occurrences_props [OF assms(1), of "map f content" 0] assms(2)
  have a: "snd m = fst m + length (map f keyword)" and b: "snd m \<le> length (map f content)"
    and c: "take (length (map f keyword)) (drop (fst m) (map f content)) = map f keyword"
    by auto
  have "drop (fst m) (take (snd m) content) = take (length keyword) (drop (fst m) content)"
    using a by (simp add: drop_take)
  with b c show ?thesis by (simp add: take_map drop_map)
qed

section \<open>C3: highlighting\<close>

text \<open>
  What the spec asks of the highlighted text, in its own words: every span's
  substring of the original text wrapped in the marker, all text outside the
  spans unchanged. \<open>render t off ms\<close> writes out \<open>t\<close> from offset \<open>off\<close> on for spans
  \<open>ms\<close> in ascending order.
\<close>

fun render :: "pstr \<Rightarrow> nat \<Rightarrow> span list \<Rightarrow> pstr" where
  "render t off [] = drop off t"
| "render t off ((s, e) # ms) =
     drop off (take s t) @ span_open @ drop s (take e t) @ span_close @ render t e ms"

lemma render_snoc:
  assumes "\<forall>m \<in> set asc. fst m \<le> snd m \<and> snd m \<le> s"
  shows "render t off (asc @ [(s, e)]) =
           render (take s t) off asc @ span_open @ drop s (take e t) @ span_close @ drop e t"
  using assms
proof (induction asc arbitrary: off)
  case Nil
  show ?case by simp
next
  case (Cons m asc)
  obtain s1 e1 where m: "m = (s1, e1)" by (cases m)
  from Cons.prems m have le: "s1 \<le> e1" "e1 \<le> s" by auto
  then have mn: "min s1 s = s1" "min e1 s = e1" by simp_all
  from Cons.prems have "\<forall>m \<in> set asc. fst m \<le> snd m \<and> snd m \<le> s" by simp
  from Cons.IH [OF this] show ?case by (simp add: m mn)
qed

lemma foldl_insert_highlight:
  assumes "sorted_wrt (\<lambda>a b. snd a \<le> fst b) asc"
    and "\<forall>m \<in> set asc. fst m \<le> snd m \<and> snd m \<le> length pre"
  shows "foldl insert_highlight (pre @ tail) (rev asc) = render pre 0 asc @ tail"
  using assms
proof (induction asc arbitrary: pre tail rule: rev_induct)
  case Nil
  show ?case by simp
next
  case (snoc m asc)
  obtain s e where m: "m = (s, e)" by (cases m)
  from snoc.prems m have le: "s \<le> e" "e \<le> length pre" by auto
  from snoc.prems(1) m have chain: "sorted_wrt (\<lambda>a b. snd a \<le> fst b) asc"
    and below: "\<forall>x \<in> set asc. snd x \<le> s"
    by (auto simp: sorted_wrt_append)
  from snoc.prems(2) have valid: "\<forall>x \<in> set asc. fst x \<le> snd x" by simp
  have step: "insert_highlight (pre @ tail) (s, e) =
                take s pre @ (span_open @ drop s (take e pre) @ span_close @ drop e pre @ tail)"
    using le by (simp add: insert_highlight_def)
  have "\<forall>x \<in> set asc. fst x \<le> snd x \<and> snd x \<le> length (take s pre)"
    using valid below le by (auto simp: min_def)
  from snoc.IH [OF chain this]
  have "foldl insert_highlight (insert_highlight (pre @ tail) (s, e)) (rev asc) =
          render (take s pre) 0 asc @
          (span_open @ drop s (take e pre) @ span_close @ drop e pre @ tail)"
    unfolding step .
  moreover have "render pre 0 (asc @ [(s, e)]) =
      render (take s pre) 0 asc @ span_open @ drop s (take e pre) @ span_close @ drop e pre"
    using valid below by (intro render_snoc) simp
  ultimately show ?case by (simp add: m)
qed

lemma sorted_distinct_keys:
  assumes "sorted (map f xs)" and "distinct (map f xs)"
  shows "sorted_wrt (\<lambda>a b. f a < f b) xs"
proof -
  from assms have "sorted_wrt (<) (map f xs)" by (simp add: strict_sorted_iff)
  then show ?thesis by (simp add: sorted_wrt_map)
qed

lemma ascending_chain:
  assumes valid: "\<forall>m \<in> set ms. fst m \<le> snd m"
    and starts: "distinct (map fst ms)"
    and apart: "\<forall>a \<in> set ms. \<forall>b \<in> set ms. a \<noteq> b \<longrightarrow> snd a \<le> fst b \<or> snd b \<le> fst a"
    and perm: "set asc = set ms" "distinct (map fst asc)" "sorted (map fst asc)"
  shows "sorted_wrt (\<lambda>a b. snd a \<le> fst b) asc"
proof (rule sorted_wrt_mono_rel [OF _ sorted_distinct_keys [OF perm(3) perm(2)]])
  fix a b assume "a \<in> set asc" "b \<in> set asc" and lt: "fst a < fst b"
  with perm(1) have ab: "a \<in> set ms" "b \<in> set ms" by simp_all
  from lt have "a \<noteq> b" by auto
  with apart ab have "snd a \<le> fst b \<or> snd b \<le> fst a" by blast
  moreover from valid ab have "fst b \<le> snd b" by simp
  ultimately show "snd a \<le> fst b" using lt by auto
qed

lemma distinct_map_sort_key: "distinct (map g (sort_key f xs)) = distinct (map g xs)"
  by (simp add: distinct_map)

lemma sort_key_rev_distinct:
  assumes "distinct (map f xs)"
  shows "sort_key f (rev xs) = sort_key f xs"
proof (rule map_sorted_distinct_set_unique [where f = f])
  from assms show "inj_on f (set (sort_key f (rev xs)) \<union> set (sort_key f xs))"
    by (simp add: distinct_map)
  show "distinct (map f (sort_key f (rev xs)))"
    using assms by (simp add: distinct_map_sort_key rev_map [symmetric])
  show "distinct (map f (sort_key f xs))"
    using assms by (simp add: distinct_map_sort_key)
qed simp_all

text \<open>
  With pairwise distinct start offsets the order of the spans is fixed, and the
  loop from the highest start down gives the rendering.
\<close>

lemma highlight_distinct_starts:
  assumes valid: "\<forall>m \<in> set matches. fst m \<le> snd m \<and> snd m \<le> length text"
    and starts: "distinct (map fst matches)"
    and apart: "\<forall>a \<in> set matches. \<forall>b \<in> set matches.
                  a \<noteq> b \<longrightarrow> snd a \<le> fst b \<or> snd b \<le> fst a"
  shows "highlight_all_keywords text matches keyword = render text 0 (sort_key fst matches)"
proof -
  let ?asc = "sort_key fst (rev matches)"
  have eq: "?asc = sort_key fst matches" by (rule sort_key_rev_distinct [OF starts])
  have chain: "sorted_wrt (\<lambda>a b. snd a \<le> fst b) ?asc"
    using valid starts apart
    by (intro ascending_chain [where ms = matches])
       (simp_all add: distinct_map_sort_key rev_map [symmetric])
  have "\<forall>m \<in> set ?asc. fst m \<le> snd m \<and> snd m \<le> length text"
    using valid by simp
  from foldl_insert_highlight [OF chain this, of "[]"]
  show ?thesis
    by (simp add: highlight_all_keywords_def py_sorted_reverse_def eq)
qed

text \<open>
  Match spans are not empty, and two different spans that do not overlap then
  start at different offsets.
\<close>

lemma match_spans_distinct_starts:
  fixes matches :: "span list"
  assumes valid: "\<forall>m \<in> set matches. fst m < snd m"
    and dist: "distinct matches"
    and apart: "\<forall>a \<in> set matches. \<forall>b \<in> set matches.
                  a \<noteq> b \<longrightarrow> snd a \<le> fst b \<or> snd b \<le> fst a"
  shows "distinct (map fst matches)"
proof -
  have "inj_on fst (set matches)"
  proof (rule inj_onI)
    fix a b assume a: "a \<in> set matches" and b: "b \<in> set matches" and eq: "fst a = fst b"
    show "a = b"
    proof (rule ccontr)
      assume "a \<noteq> b"
      with apart a b have "snd a \<le> fst b \<or> snd b \<le> fst a" by blast
      moreover from valid a b have "fst a < snd a" "fst b < snd b" by simp_all
      ultimately show False using eq by linarith
    qed
  qed
  with dist show ?thesis by (simp add: distinct_map)
qed

lemma sorted_wrt_distinct:
  "sorted_wrt (\<lambda>a b. a \<noteq> b \<and> P a b) xs \<Longrightarrow> distinct xs"
  by (induction xs) auto

lemma chain_apart:
  fixes xs :: "span list"
  shows "sorted_wrt (\<lambda>a b. snd a \<le> fst b) xs \<Longrightarrow>
     \<forall>a \<in> set xs. \<forall>b \<in> set xs. a \<noteq> b \<longrightarrow> snd a \<le> fst b \<or> snd b \<le> fst a"
  by (induction xs) auto

text \<open>
  The spans one scan records are of this kind: not empty, different from each
  other, inside the scanned text and pairwise non-overlapping.
\<close>

lemma occurrences_match_spans:
  assumes "kw \<noteq> []"
  shows "(\<forall>m \<in> set (occurrences t kw 0). fst m < snd m \<and> snd m \<le> length t) \<and>
         distinct (occurrences t kw 0) \<and>
         (\<forall>a \<in> set (occurrences t kw 0). \<forall>b \<in> set (occurrences t kw 0).
            a \<noteq> b \<longrightarrow> snd a \<le> fst b \<or> snd b \<le> fst a)"
proof -
  let ?ms = "occurrences t kw 0"
  from occurrences_props [OF assms, of t 0]
  have each: "\<forall>m \<in> set ?ms. snd m = fst m + length kw \<and> snd m \<le> length t"
    and chain: "sorted_wrt (\<lambda>a b. snd a \<le> fst b) ?ms"
    by blast+
  from assms have pos: "0 < length kw" by simp
  with each have ne: "\<forall>m \<in> set ?ms. fst m < snd m \<and> snd m \<le> length t" by auto
  have strict: "sorted_wrt (\<lambda>a b. a \<noteq> b \<and> snd a \<le> fst b) ?ms"
  proof (rule sorted_wrt_mono_rel [OF _ chain])
    fix a b assume "a \<in> set ?ms" "b \<in> set ?ms" and le: "snd a \<le> fst b"
    with ne have "fst a < snd a" by simp
    with le show "a \<noteq> b \<and> snd a \<le> fst b" by auto
  qed
  have dist: "distinct ?ms"
    by (rule sorted_wrt_distinct [OF strict])
  have apart: "\<forall>a \<in> set ?ms. \<forall>b \<in> set ?ms. a \<noteq> b \<longrightarrow> snd a \<le> fst b \<or> snd b \<le> fst a"
    by (rule chain_apart [OF chain])
  from ne dist apart show ?thesis by blast
qed

text \<open>
  C3. For match spans inside the text, that is spans that are not empty, that are
  pairwise non-overlapping, \<open>highlight_all_keywords\<close> goes through the spans in
  descending order of start offset and returns the text with every span's
  original substring wrapped in the marker and everything else unchanged.
\<close>

theorem highlight_wraps_spans:
  assumes valid: "\<forall>m \<in> set matches. fst m < snd m \<and> snd m \<le> length text"
    and dist: "distinct matches"
    and apart: "\<forall>a \<in> set matches. \<forall>b \<in> set matches.
                  a \<noteq> b \<longrightarrow> snd a \<le> fst b \<or> snd b \<le> fst a"
  shows "sorted_wrt (\<lambda>a b. fst b \<le> fst a) (py_sorted_reverse fst matches) \<and>
         highlight_all_keywords text matches keyword = render text 0 (sort_key fst matches)"
proof
  have "sorted_wrt (\<lambda>a b. fst a \<le> fst b) (sort_key fst (rev matches))"
    using sorted_sort_key [of fst "rev matches"] by (simp only: sorted_map)
  then show "sorted_wrt (\<lambda>a b. fst b \<le> fst a) (py_sorted_reverse fst matches)"
    by (simp add: py_sorted_reverse_def sorted_wrt_rev)
next
  from valid have ne: "\<forall>m \<in> set matches. fst m < snd m" by simp
  have starts: "distinct (map fst matches)"
    by (rule match_spans_distinct_starts [OF ne dist apart])
  from valid have "\<forall>m \<in> set matches. fst m \<le> snd m \<and> snd m \<le> length text" by auto
  from highlight_distinct_starts [OF this starts apart]
  show "highlight_all_keywords text matches keyword = render text 0 (sort_key fst matches)" .
qed

theorem highlight_wraps_spans_witness:
  "ascii ''abc'' \<noteq> [] \<and>
   occurrences (ascii ''abcabc'') (ascii ''abc'') 0 = [(0, 3), (3, 6)] \<and>
   distinct [(0::nat, 3::nat), (3, 6)] \<and>
   list_all (\<lambda>m. fst m < snd m \<and> snd m \<le> length (ascii ''abcabc'')) [(0, 3), (3, 6)] \<and>
   highlight_all_keywords (ascii ''abcabc'') [(0, 3), (3, 6)] (ascii ''abc'') =
     span_open @ ascii ''abc'' @ span_close @ span_open @ ascii ''abc'' @ span_close"
proof -
  have ne: "ascii ''abc'' \<noteq> []" by (simp add: ascii_def)
  have occ: "occurrences (ascii ''abcabc'') (ascii ''abc'') 0 = [(0, 3), (3, 6)]"
    by (simp add: occurrences.simps py_find_def ascii_def)
  from occurrences_match_spans [OF ne, of "ascii ''abcabc''"]
  have valid: "\<forall>m \<in> set [(0, 3), (3, 6)]. fst m < snd m \<and> snd m \<le> length (ascii ''abcabc'')"
    and dist: "distinct [(0::nat, 3::nat), (3, 6)]"
    and apart: "\<forall>a \<in> set [(0::nat, 3::nat), (3, 6)]. \<forall>b \<in> set [(0, 3), (3, 6)].
                 a \<noteq> b \<longrightarrow> snd a \<le> fst b \<or> snd b \<le> fst a"
    unfolding occ by blast+
  have "render (ascii ''abcabc'') 0 (sort_key fst [(0, 3), (3, 6)]) =
          span_open @ ascii ''abc'' @ span_close @ span_open @ ascii ''abc'' @ span_close"
    by (simp add: ascii_def)
  moreover have "list_all (\<lambda>m. fst m < snd m \<and> snd m \<le> length (ascii ''abcabc''))
                   [(0, 3), (3, 6)]"
    by (simp add: ascii_def)
  ultimately show ?thesis
    using highlight_wraps_spans [OF valid dist apart, of "ascii ''abc''"] ne occ by simp
qed

section \<open>C2: units that share a label\<close>

text \<open>
  The units of a document that hold the keyword, their labels, the matching
  units of one label in document order, and the spans the scan records for a
  list of units, one unit after the other.
\<close>

definition matching :: "(pstr \<Rightarrow> pstr) \<Rightarrow> pstr \<Rightarrow> item \<Rightarrow> bool" where
  "matching lower keyword_lower u = py_in keyword_lower (lower (item_content u))"

definition label_of :: "item \<Rightarrow> pstr" where
  "label_of u = extract_article_title (item_content u)"

definition units_of :: "(pstr \<Rightarrow> pstr) \<Rightarrow> pstr \<Rightarrow> pstr \<Rightarrow> item list \<Rightarrow> item list" where
  "units_of lower keyword_lower lab items =
     filter (\<lambda>u. matching lower keyword_lower u \<and> label_of u = lab) items"

definition spans_of :: "(pstr \<Rightarrow> pstr) \<Rightarrow> pstr \<Rightarrow> item list \<Rightarrow> span list" where
  "spans_of lower keyword_lower us =
     concat (map (\<lambda>u. occurrences (lower (item_content u)) keyword_lower 0) us)"

text \<open>
  The invariant of the loop over the units: after the units \<open>items\<close> the
  dictionary has one entry for each label of a matching unit, with the text of the
  first matching unit of that label and the spans of all of them.
\<close>

definition grouped ::
  "(pstr \<Rightarrow> pstr) \<Rightarrow> pstr \<Rightarrow> item list \<Rightarrow> (pstr \<times> article_data) list \<Rightarrow> bool" where
  "grouped lower kw items ma \<longleftrightarrow>
     distinct (map fst ma) \<and>
     fst ` set ma = label_of ` {u \<in> set items. matching lower kw u} \<and>
     (\<forall>lab d. map_of ma lab = Some d \<longrightarrow>
        ad_title d = lab \<and>
        ad_content d = item_content (hd (units_of lower kw lab items)) \<and>
        ad_matches d = spans_of lower kw (units_of lower kw lab items))"

lemma grouped_Nil: "grouped lower kw [] []"
  by (simp add: grouped_def)

lemma units_of_snoc:
  "units_of lower kw lab (items @ [u]) =
     (if matching lower kw u \<and> label_of u = lab
      then units_of lower kw lab items @ [u] else units_of lower kw lab items)"
  by (simp add: units_of_def)

lemma units_of_empty_iff:
  "units_of lower kw lab items = [] \<longleftrightarrow>
     lab \<notin> label_of ` {u \<in> set items. matching lower kw u}"
  by (auto simp: units_of_def filter_empty_conv)

lemma scan_item_grouped:
  assumes kw: "kw \<noteq> []" and g: "grouped lower kw items ma"
  shows "\<exists>ma'. scan_item lower kw ma u = Some ma' \<and> grouped lower kw (items @ [u]) ma'"
proof (cases "matching lower kw u")
  case False
  then have "scan_item lower kw ma u = Some ma"
    by (simp add: scan_item_def matching_def)
  moreover from False g have "grouped lower kw (items @ [u]) ma"
    by (auto simp: grouped_def units_of_snoc)
  ultimately show ?thesis by simp
next
  case True
  define L where "L = label_of u"
  define entry where "entry = (case map_of ma L of
      None \<Rightarrow> \<lparr>ad_title = L, ad_content = item_content u, ad_matches = []\<rparr> | Some d \<Rightarrow> d)"
  define occ where "occ = occurrences (lower (item_content u)) kw 0"
  define ma' where "ma' = AList.update L (entry\<lparr>ad_matches := ad_matches entry @ occ\<rparr>) ma"
  have run: "scan_item lower kw ma u = Some ma'"
  proof -
    have "scan_matches (lower (item_content u)) kw 0 (ad_matches entry) =
            Some (ad_matches entry @ occ)"
      unfolding occ_def by (rule scan_matches_occurrences [OF kw])
    then show ?thesis
      using True
      unfolding ma'_def entry_def L_def label_of_def matching_def scan_item_def Let_def
      by simp
  qed
  from g have dist: "distinct (map fst ma)"
    and keys: "fst ` set ma = label_of ` {u \<in> set items. matching lower kw u}"
    and ents: "\<And>lab d. map_of ma lab = Some d \<Longrightarrow>
        ad_title d = lab \<and>
        ad_content d = item_content (hd (units_of lower kw lab items)) \<and>
        ad_matches d = spans_of lower kw (units_of lower kw lab items)"
    by (auto simp: grouped_def)
  have d': "distinct (map fst ma')"
    unfolding ma'_def by (rule distinct_update [OF dist])
  have k': "fst ` set ma' = label_of ` {v \<in> set (items @ [u]). matching lower kw v}"
    using True keys by (auto simp: ma'_def dom_update L_def)
  have e': "ad_title d = lab \<and>
        ad_content d = item_content (hd (units_of lower kw lab (items @ [u]))) \<and>
        ad_matches d = spans_of lower kw (units_of lower kw lab (items @ [u]))"
    if look: "map_of ma' lab = Some d" for lab d
  proof (cases "lab = L")
    case False
    with look have "map_of ma lab = Some d" by (simp add: ma'_def update_conv')
    from ents [OF this] False show ?thesis by (simp add: units_of_snoc L_def)
  next
    case lab: True
    with look have d: "d = entry\<lparr>ad_matches := ad_matches entry @ occ\<rparr>"
      by (simp add: ma'_def update_conv')
    have snoc: "units_of lower kw L (items @ [u]) = units_of lower kw L items @ [u]"
      using True by (simp add: units_of_snoc L_def)
    show ?thesis
    proof (cases "map_of ma L")
      case None
      then have "L \<notin> fst ` set ma" by (simp add: map_of_eq_None_iff)
      with keys have "units_of lower kw L items = []"
        by (simp add: units_of_empty_iff)
      with None show ?thesis
        by (simp add: d entry_def snoc lab spans_of_def occ_def)
    next
      case (Some d0)
      then have "L \<in> fst ` set ma"
        using map_of_eq_None_iff [of ma L] by auto
      with keys have ne: "units_of lower kw L items \<noteq> []"
        by (simp add: units_of_empty_iff)
      from ents [OF Some] Some ne show ?thesis
        by (simp add: d entry_def snoc lab spans_of_def occ_def)
    qed
  qed
  from d' k' e' have "grouped lower kw (items @ [u]) ma'"
    unfolding grouped_def by blast
  with run show ?thesis by simp
qed

lemma scan_items_grouped:
  assumes "kw \<noteq> []" and "grouped lower kw items ma"
  shows "\<exists>ma'. scan_items lower kw ma us = Some ma' \<and> grouped lower kw (items @ us) ma'"
  using assms(2)
proof (induction us arbitrary: items ma)
  case Nil
  then show ?case by simp
next
  case (Cons u us)
  from scan_item_grouped [OF assms(1) Cons.prems, of u]
  obtain ma1 where 1: "scan_item lower kw ma u = Some ma1"
    and g1: "grouped lower kw (items @ [u]) ma1" by blast
  from Cons.IH [OF g1] 1 show ?case by simp
qed

text \<open>Two articles with the label of article one and different texts.\<close>

definition first_text :: pstr where
  "first_text = article_one @ ascii '' ab cd ''"

definition second_text :: pstr where
  "second_text = article_one @ ascii '' cd ab ''"

text \<open>
  C2, amended. With a non-empty (lowercased) keyword the scan of a document
  returns a dictionary with one entry for each label of a matching unit. The
  entry of a label holds the spans of all matching units of that label, merged in
  document order, and its content is the text of the first of these units; the
  snippet is built from that text and the merged spans.
\<close>

theorem same_label_units_merged:
  assumes "keyword_lower \<noteq> []"
  shows "\<exists>ma. scan_items lower keyword_lower [] items = Some ma \<and>
           distinct (map fst ma) \<and>
           (\<forall>u \<in> set items. matching lower keyword_lower u \<longrightarrow> label_of u \<in> fst ` set ma) \<and>
           (\<forall>(lab, d) \<in> set ma.
              units_of lower keyword_lower lab items \<noteq> [] \<and>
              ad_content d = item_content (hd (units_of lower keyword_lower lab items)) \<and>
              ad_matches d = spans_of lower keyword_lower (units_of lower keyword_lower lab items) \<and>
              make_page keyword (lab, d) =
                \<lparr>page_title = lab,
                 snippet = highlight_all_keywords
                             (item_content (hd (units_of lower keyword_lower lab items)))
                             (spans_of lower keyword_lower (units_of lower keyword_lower lab items))
                             keyword,
                 matched_term = keyword,
                 match_count =
                   length (spans_of lower keyword_lower (units_of lower keyword_lower lab items))\<rparr>)"
proof -
  from scan_items_grouped [OF assms grouped_Nil, of lower items]
  obtain ma where run: "scan_items lower keyword_lower [] items = Some ma"
    and g: "grouped lower keyword_lower items ma" by auto
  from g have dist: "distinct (map fst ma)"
    and keys: "fst ` set ma = label_of ` {u \<in> set items. matching lower keyword_lower u}"
    and ents: "\<And>lab d. map_of ma lab = Some d \<Longrightarrow>
        ad_title d = lab \<and>
        ad_content d = item_content (hd (units_of lower keyword_lower lab items)) \<and>
        ad_matches d = spans_of lower keyword_lower (units_of lower keyword_lower lab items)"
    by (auto simp: grouped_def)
  have all: "\<forall>u \<in> set items. matching lower keyword_lower u \<longrightarrow> label_of u \<in> fst ` set ma"
    unfolding keys by blast
  have each: "units_of lower keyword_lower lab items \<noteq> [] \<and>
              ad_content d = item_content (hd (units_of lower keyword_lower lab items)) \<and>
              ad_matches d = spans_of lower keyword_lower (units_of lower keyword_lower lab items) \<and>
              make_page keyword (lab, d) =
                \<lparr>page_title = lab,
                 snippet = highlight_all_keywords
                             (item_content (hd (units_of lower keyword_lower lab items)))
                             (spans_of lower keyword_lower (units_of lower keyword_lower lab items))
                             keyword,
                 matched_term = keyword,
                 match_count =
                   length (spans_of lower keyword_lower (units_of lower keyword_lower lab items))\<rparr>"
    if mem: "(lab, d) \<in> set ma" for lab d
  proof -
    from mem dist have "map_of ma lab = Some d" by simp
    from ents [OF this] have e: "ad_content d = item_content (hd (units_of lower keyword_lower lab items))"
      "ad_matches d = spans_of lower keyword_lower (units_of lower keyword_lower lab items)"
      by simp_all
    from mem have "lab \<in> fst ` set ma" by force
    with keys have "units_of lower keyword_lower lab items \<noteq> []"
      by (simp add: units_of_empty_iff)
    with e show ?thesis by (simp add: make_page_def)
  qed
  from run dist all each show ?thesis by blast
qed

lemmas group_defs = matching_def label_of_def units_of_def spans_of_def occurrences.simps
  first_text_def second_text_def

lemma scan_two_units:
  "scan_items py_lower (ascii ''ab'') [] [article_item first_text, article_item second_text] =
     Some [(article_one, \<lparr>ad_title = article_one, ad_content = first_text,
                          ad_matches = [(4, 6), (7, 9)]\<rparr>)]"
  by (simp add: eval_defs group_defs)

theorem same_label_units_merged_witness:
  "ascii ''ab'' \<noteq> [] \<and>
   (\<exists>ma. scan_items py_lower (ascii ''ab'') []
            [article_item first_text, article_item second_text] = Some ma \<and>
         map fst ma = [article_one] \<and>
         (\<forall>(lab, d) \<in> set ma.
            ad_content d = first_text \<and>
            ad_matches d = [(4, 6), (7, 9)] \<and>
            snippet (make_page (ascii ''ab'') (lab, d)) =
              highlight_all_keywords first_text [(4, 6), (7, 9)] (ascii ''ab'')))"
proof -
  let ?items = "[article_item first_text, article_item second_text]"
  have ne: "ascii ''ab'' \<noteq> []" by (simp add: ascii_def)
  have u: "units_of py_lower (ascii ''ab'') article_one ?items = ?items"
    by (simp add: eval_defs group_defs)
  have sp: "spans_of py_lower (ascii ''ab'') ?items = [(4, 6), (7, 9)]"
    by (simp add: eval_defs group_defs)
  have hd: "item_content (hd ?items) = first_text"
    by (simp add: article_item_def)
  from same_label_units_merged [OF ne, of py_lower ?items "ascii ''ab''"]
  obtain ma where run: "scan_items py_lower (ascii ''ab'') [] ?items = Some ma"
    and each: "\<forall>(lab, d) \<in> set ma.
              ad_content d = item_content (hd (units_of py_lower (ascii ''ab'') lab ?items)) \<and>
              ad_matches d = spans_of py_lower (ascii ''ab'')
                               (units_of py_lower (ascii ''ab'') lab ?items) \<and>
              make_page (ascii ''ab'') (lab, d) =
                \<lparr>page_title = lab,
                 snippet = highlight_all_keywords
                             (item_content (hd (units_of py_lower (ascii ''ab'') lab ?items)))
                             (spans_of py_lower (ascii ''ab'')
                                (units_of py_lower (ascii ''ab'') lab ?items))
                             (ascii ''ab''),
                 matched_term = ascii ''ab'',
                 match_count = length (spans_of py_lower (ascii ''ab'')
                                 (units_of py_lower (ascii ''ab'') lab ?items))\<rparr>"
    by blast
  from run have ma: "ma = [(article_one, \<lparr>ad_title = article_one, ad_content = first_text,
                                          ad_matches = [(4, 6), (7, 9)]\<rparr>)]"
    by (simp only: scan_two_units option.inject)
  from each have b: "\<forall>(lab, d) \<in> set ma.
            ad_content d = first_text \<and>
            ad_matches d = [(4, 6), (7, 9)] \<and>
            snippet (make_page (ascii ''ab'') (lab, d)) =
              highlight_all_keywords first_text [(4, 6), (7, 9)] (ascii ''ab'')"
    unfolding ma by (simp add: u sp hd)
  have c: "map fst ma = [article_one]" by (simp add: ma)
  from run c b have "scan_items py_lower (ascii ''ab'') [] ?items = Some ma \<and>
         map fst ma = [article_one] \<and>
         (\<forall>(lab, d) \<in> set ma.
            ad_content d = first_text \<and>
            ad_matches d = [(4, 6), (7, 9)] \<and>
            snippet (make_page (ascii ''ab'') (lab, d)) =
              highlight_all_keywords first_text [(4, 6), (7, 9)] (ascii ''ab''))"
    by (intro conjI)
  then have "\<exists>ma. scan_items py_lower (ascii ''ab'') [] ?items = Some ma \<and>
         map fst ma = [article_one] \<and>
         (\<forall>(lab, d) \<in> set ma.
            ad_content d = first_text \<and>
            ad_matches d = [(4, 6), (7, 9)] \<and>
            snippet (make_page (ascii ''ab'') (lab, d)) =
              highlight_all_keywords first_text [(4, 6), (7, 9)] (ascii ''ab''))"
    by (rule exI [where x = ma])
  with ne show ?thesis by (rule conjI)
qed

text \<open>
  C2 as stated says that the entry keeps the text of the last unit of the label.
  For two matching units of one label the entry keeps the text of the first, and
  the span of the second is applied to it.
\<close>

theorem same_label_keeps_first_text_counterexample:
  "scan_items py_lower (py_lower (ascii ''ab'')) []
     [article_item first_text, article_item second_text] =
     Some [(article_one, \<lparr>ad_title = article_one, ad_content = first_text,
                          ad_matches = [(4, 6), (7, 9)]\<rparr>)] \<and>
   first_text \<noteq> second_text \<and>
   search py_lower (ascii ''ab'') (ascii ''all'')
     [law_of [article_item first_text, article_item second_text]] =
     Some (Inr [\<lparr>res_title = [0x5211, 0x6CD5], res_year = YearStr (ascii ''1997''),
                 res_filename = [0x5211, 0x6CD5] @ ascii ''_1997.docx'', res_total_pages = 1,
                 res_matched_pages =
                   [\<lparr>page_title = article_one,
                     snippet = article_one @ ascii '' '' @ span_open @ ascii ''ab'' @ span_close @
                               ascii '' '' @ span_open @ ascii ''cd'' @ span_close @ ascii '' '',
                     matched_term = ascii ''ab'', match_count = 2\<rparr>],
                 res_total_matches = 2\<rparr>]) \<and>
   article_one @ ascii '' '' @ span_open @ ascii ''ab'' @ span_close @
     ascii '' '' @ span_open @ ascii ''cd'' @ span_close @ ascii '' '' \<noteq>
   highlight_all_keywords second_text [(4, 6), (7, 9)] (ascii ''ab'')"
  by (simp add: eval_defs group_defs)

section \<open>C6: the order of the results\<close>

text \<open>
  The result one law contributes to \<open>results\<close>, if any. The list of these over
  \<open>data["laws"]\<close> is the list of results in the order of the index.
\<close>

definition law_result ::
  "(pstr \<Rightarrow> pstr) \<Rightarrow> pstr \<Rightarrow> pstr \<Rightarrow> law \<Rightarrow> search_result option" where
  "law_result lower keyword law_type law =
     (case search_in_law lower keyword law_type law of
        Some (Inr (Some r)) \<Rightarrow> Some r
      | _ \<Rightarrow> None)"

lemma search_in_law_returns:
  assumes "lower keyword \<noteq> []"
  shows "\<exists>x. search_in_law lower keyword law_type law = Some x"
proof -
  have scan: "scan_items lower (lower keyword) [] items \<noteq> None" for items
    using scan_items_grouped [of "lower keyword" lower "[]" "[]" items] assms grouped_Nil
    by auto
  show ?thesis
    by (simp add: search_in_law_def Let_def scan
          split: sum.split bool.split option.split)
qed

lemma search_in_laws_returns:
  assumes "lower keyword \<noteq> []"
  shows "\<exists>x. search_in_laws lower keyword law_type results laws = Some x"
proof (induction laws arbitrary: results)
  case Nil
  show ?case by simp
next
  case (Cons law laws)
  from search_in_law_returns [of lower keyword law_type law] assms
  obtain x where x: "search_in_law lower keyword law_type law = Some x" by blast
  show ?case
    using Cons.IH by (simp add: x split: sum.splits option.splits)
qed

lemma search_in_laws_Inr:
  "search_in_laws lower keyword law_type results laws = Some (Inr rs) \<Longrightarrow>
     rs = results @ List.map_filter (law_result lower keyword law_type) laws"
proof (induction laws arbitrary: results)
  case Nil
  then show ?case by simp
next
  case (Cons law laws)
  show ?case
  proof (cases "search_in_law lower keyword law_type law")
    case None
    with Cons.prems show ?thesis by simp
  next
    case (Some x)
    show ?thesis
    proof (cases x)
      case (Inl e)
      with Some Cons.prems show ?thesis by simp
    next
      case (Inr ro)
      show ?thesis
      proof (cases ro)
        case None
        with Some Inr Cons.prems
        have "search_in_laws lower keyword law_type results laws = Some (Inr rs)" by simp
        from Cons.IH [OF this] Some Inr None show ?thesis
          by (simp add: law_result_def)
      next
        case (Some r)
        with \<open>search_in_law lower keyword law_type law = Some x\<close> Inr Cons.prems
        have "search_in_laws lower keyword law_type (results @ [r]) laws = Some (Inr rs)" by simp
        from Cons.IH [OF this] \<open>search_in_law lower keyword law_type law = Some x\<close> Inr Some
        show ?thesis
          by (simp add: law_result_def)
      qed
    qed
  qed
qed

lemma py_sorted_reverse_sorted:
  "sorted_wrt (\<lambda>a b. key b \<le> key a) (py_sorted_reverse key xs)"
proof -
  have "sorted_wrt (\<lambda>a b. key a \<le> key b) (sort_key key (rev xs))"
    using sorted_sort_key [of key "rev xs"] by (simp only: sorted_map)
  then show ?thesis by (simp add: py_sorted_reverse_def sorted_wrt_rev)
qed

lemma py_sorted_reverse_stable:
  "filter (\<lambda>x. key x = k) (py_sorted_reverse key xs) = filter (\<lambda>x. key x = k) xs"
proof -
  have "filter (\<lambda>x. key x = k) (py_sorted_reverse key xs) =
          rev (filter (\<lambda>x. key x = k) (sort_key key (rev xs)))"
    by (simp add: py_sorted_reverse_def rev_filter)
  also have "\<dots> = rev (filter (\<lambda>x. key x = k) (rev xs))"
    by (simp only: sort_key_stable)
  also have "\<dots> = filter (\<lambda>x. key x = k) xs"
    by (simp add: rev_filter)
  finally show ?thesis .
qed

text \<open>
  C6. A search with a keyword whose lowercase is not empty returns or raises. The
  list a search returns is in non-increasing order of \<open>total_matches\<close>, and for
  every value of \<open>total_matches\<close> the results with that value are in the order in
  which their laws stand in the index.
\<close>

theorem search_sorted_by_total_matches:
  "(lower keyword \<noteq> [] \<longrightarrow> (\<exists>x. search lower keyword law_type laws = Some x)) \<and>
   (\<forall>rs. search lower keyword law_type laws = Some (Inr rs) \<longrightarrow>
      sorted_wrt (\<lambda>a b. res_total_matches b \<le> res_total_matches a) rs \<and>
      (\<forall>k. filter (\<lambda>r. res_total_matches r = k) rs =
           filter (\<lambda>r. res_total_matches r = k)
             (List.map_filter (law_result lower keyword law_type) laws)))"
proof (intro conjI impI allI)
  assume "lower keyword \<noteq> []"
  from search_in_laws_returns [of lower keyword law_type "[]" laws] this
  show "\<exists>x. search lower keyword law_type laws = Some x"
    by (auto simp: search_def split: sum.splits)
next
  fix rs assume ret: "search lower keyword law_type laws = Some (Inr rs)"
  then obtain results where res: "search_in_laws lower keyword law_type [] laws = Some (Inr results)"
    and rs: "rs = (if results = [] then [] else py_sorted_reverse res_total_matches results)"
    by (auto simp: search_def split: option.splits sum.splits)
  from rs have rs': "rs = py_sorted_reverse res_total_matches results"
    by (simp add: py_sorted_reverse_def)
  from search_in_laws_Inr [OF res]
  have results: "results = List.map_filter (law_result lower keyword law_type) laws" by simp
  show "sorted_wrt (\<lambda>a b. res_total_matches b \<le> res_total_matches a) rs"
    unfolding rs' by (rule py_sorted_reverse_sorted)
  fix k
  show "filter (\<lambda>r. res_total_matches r = k) rs =
          filter (\<lambda>r. res_total_matches r = k)
            (List.map_filter (law_result lower keyword law_type) laws)"
    unfolding rs' results [symmetric] by (rule py_sorted_reverse_stable)
qed

text \<open>Three laws with one, two and one occurrence of \<open>ab\<close>.\<close>

definition titled_law :: "pstr \<Rightarrow> item list \<Rightarrow> law" where
  "titled_law t items =
     (law_of items)\<lparr>law_title := Some t, law_filename := Some (t @ ascii ''_1997.docx'')\<rparr>"

definition three_laws :: "law list" where
  "three_laws =
     [titled_law (ascii ''A'') [article_item (article_one @ ascii '' ab '')],
      titled_law (ascii ''B'') [article_item (article_one @ ascii '' ab ab '')],
      titled_law (ascii ''C'') [article_item (article_one @ ascii '' ab '')]]"

theorem search_sorted_by_total_matches_witness:
  "py_lower (ascii ''ab'') \<noteq> [] \<and>
   (\<exists>rs. search py_lower (ascii ''ab'') (ascii ''all'') three_laws = Some (Inr rs) \<and>
         map res_title rs = [ascii ''B'', ascii ''A'', ascii ''C''] \<and>
         map res_total_matches rs = [2, 1, 1] \<and>
         sorted_wrt (\<lambda>a b. res_total_matches b \<le> res_total_matches a) rs \<and>
         filter (\<lambda>r. res_total_matches r = 1) rs =
           filter (\<lambda>r. res_total_matches r = 1)
             (List.map_filter (law_result py_lower (ascii ''ab'') (ascii ''all'')) three_laws))"
proof -
  have ne: "py_lower (ascii ''ab'') \<noteq> []"
    by (simp add: py_lower_def py_lower_char_def ascii_def)
  have "\<exists>rs. search py_lower (ascii ''ab'') (ascii ''all'') three_laws = Some (Inr rs) \<and>
         map res_title rs = [ascii ''B'', ascii ''A'', ascii ''C''] \<and>
         map res_total_matches rs = [2, 1, 1]"
    by (simp add: eval_defs three_laws_def titled_law_def)
  then obtain rs where
    run: "search py_lower (ascii ''ab'') (ascii ''all'') three_laws = Some (Inr rs)"
    and titles: "map res_title rs = [ascii ''B'', ascii ''A'', ascii ''C'']"
    and totals: "map res_total_matches rs = [2, 1, 1]"
    by (elim exE conjE)
  from search_sorted_by_total_matches [of py_lower "ascii ''ab''" "ascii ''all''" three_laws] run
  have "sorted_wrt (\<lambda>a b. res_total_matches b \<le> res_total_matches a) rs"
    and "filter (\<lambda>r. res_total_matches r = 1) rs =
           filter (\<lambda>r. res_total_matches r = 1)
             (List.map_filter (law_result py_lower (ascii ''ab'') (ascii ''all'')) three_laws)"
    by blast+
  with run titles totals
  have "search py_lower (ascii ''ab'') (ascii ''all'') three_laws = Some (Inr rs) \<and>
         map res_title rs = [ascii ''B'', ascii ''A'', ascii ''C''] \<and>
         map res_total_matches rs = [2, 1, 1] \<and>
         sorted_wrt (\<lambda>a b. res_total_matches b \<le> res_total_matches a) rs \<and>
         filter (\<lambda>r. res_total_matches r = 1) rs =
           filter (\<lambda>r. res_total_matches r = 1)
             (List.map_filter (law_result py_lower (ascii ''ab'') (ascii ''all'')) three_laws)"
    by (intro conjI)
  then have "\<exists>rs. search py_lower (ascii ''ab'') (ascii ''all'') three_laws = Some (Inr rs) \<and>
         map res_title rs = [ascii ''B'', ascii ''A'', ascii ''C''] \<and>
         map res_total_matches rs = [2, 1, 1] \<and>
         sorted_wrt (\<lambda>a b. res_total_matches b \<le> res_total_matches a) rs \<and>
         filter (\<lambda>r. res_total_matches r = 1) rs =
           filter (\<lambda>r. res_total_matches r = 1)
             (List.map_filter (law_result py_lower (ascii ''ab'') (ascii ''all'')) three_laws)"
    by (rule exI [where x = rs])
  with ne show ?thesis by (rule conjI)
qed

section \<open>C10: the copied fields\<close>

text \<open>
  C10. For a law that passes the filter, has a matching unit and has no
  \<open>total_pages\<close>: the round raises \<open>KeyError\<close> when \<open>title\<close>, \<open>year\<close> or \<open>filename\<close> is
  absent, and otherwise yields a result with these three fields copied and
  \<open>total_pages\<close> equal to 1.
\<close>

theorem total_pages_defaults_to_one:
  assumes kw: "lower keyword \<noteq> []"
    and pass: "skip_law lower law_type law = Inr False"
    and items: "law_content law = Some items"
    and hit: "\<exists>u \<in> set items. matching lower (lower keyword) u"
    and absent: "law_total_pages law = None"
  shows "\<exists>pages. pages \<noteq> [] \<and>
           search_in_law lower keyword law_type law =
             (case law_title law of
                None \<Rightarrow> Some (Inl (KeyError ''title''))
              | Some t \<Rightarrow>
             (case law_year law of
                None \<Rightarrow> Some (Inl (KeyError ''year''))
              | Some y \<Rightarrow>
             (case law_filename law of
                None \<Rightarrow> Some (Inl (KeyError ''filename''))
              | Some f \<Rightarrow>
                  Some (Inr (Some \<lparr>res_title = t, res_year = y, res_filename = f,
                                    res_total_pages = 1, res_matched_pages = pages,
                                    res_total_matches = sum_list (map match_count pages)\<rparr>)))))"
proof -
  from scan_items_grouped [of "lower keyword" lower "[]" "[]" items] kw grouped_Nil
  obtain ma where run: "scan_items lower (lower keyword) [] items = Some ma"
    and g: "grouped lower (lower keyword) items ma" by auto
  from g hit have "fst ` set ma \<noteq> {}" by (auto simp: grouped_def)
  then have ne: "map (make_page keyword) ma \<noteq> []" by auto
  have "search_in_law lower keyword law_type law =
          (case make_result law (map (make_page keyword) ma) of
             Inl e \<Rightarrow> Some (Inl e) | Inr r \<Rightarrow> Some (Inr (Some r)))"
    using pass items run ne by (simp add: search_in_law_def Let_def)
  also have "\<dots> = (case law_title law of
                None \<Rightarrow> Some (Inl (KeyError ''title''))
              | Some t \<Rightarrow>
             (case law_year law of
                None \<Rightarrow> Some (Inl (KeyError ''year''))
              | Some y \<Rightarrow>
             (case law_filename law of
                None \<Rightarrow> Some (Inl (KeyError ''filename''))
              | Some f \<Rightarrow>
                  Some (Inr (Some \<lparr>res_title = t, res_year = y, res_filename = f,
                                    res_total_pages = 1,
                                    res_matched_pages = map (make_page keyword) ma,
                                    res_total_matches =
                                      sum_list (map match_count (map (make_page keyword) ma))\<rparr>)))))"
    using absent by (simp add: make_result_def split: option.split)
  finally show ?thesis using ne by blast
qed

text \<open>A law whose record has no \<open>total_pages\<close>.\<close>

definition no_pages_law :: law where
  "no_pages_law = (law_of [article_item (article_one @ ascii '' ab '')])\<lparr>law_total_pages := None\<rparr>"

theorem total_pages_defaults_to_one_witness:
  "py_lower (ascii ''ab'') \<noteq> [] \<and>
   skip_law py_lower (ascii ''all'') no_pages_law = Inr False \<and>
   law_content no_pages_law = Some [article_item (article_one @ ascii '' ab '')] \<and>
   (\<exists>u \<in> set [article_item (article_one @ ascii '' ab '')].
      matching py_lower (py_lower (ascii ''ab'')) u) \<and>
   law_total_pages no_pages_law = None \<and>
   (\<exists>pages. pages \<noteq> [] \<and>
      search_in_law py_lower (ascii ''ab'') (ascii ''all'') no_pages_law =
        Some (Inr (Some \<lparr>res_title = [0x5211, 0x6CD5], res_year = YearStr (ascii ''1997''),
                          res_filename = [0x5211, 0x6CD5] @ ascii ''_1997.docx'',
                          res_total_pages = 1, res_matched_pages = pages,
                          res_total_matches = sum_list (map match_count pages)\<rparr>)))"
proof -
  have kw: "py_lower (ascii ''ab'') \<noteq> []"
    by (simp add: py_lower_def py_lower_char_def ascii_def)
  have pass: "skip_law py_lower (ascii ''all'') no_pages_law = Inr False"
    by (simp add: skip_law_def)
  have items: "law_content no_pages_law = Some [article_item (article_one @ ascii '' ab '')]"
    by (simp add: no_pages_law_def law_of_def)
  have hit: "\<exists>u \<in> set [article_item (article_one @ ascii '' ab '')].
               matching py_lower (py_lower (ascii ''ab'')) u"
    by (simp add: matching_def eval_defs)
  have absent: "law_total_pages no_pages_law = None"
    by (simp add: no_pages_law_def)
  have fields: "law_title no_pages_law = Some [0x5211, 0x6CD5]"
    "law_year no_pages_law = Some (YearStr (ascii ''1997''))"
    "law_filename no_pages_law = Some ([0x5211, 0x6CD5] @ ascii ''_1997.docx'')"
    by (simp_all add: no_pages_law_def law_of_def)
  from total_pages_defaults_to_one [OF kw pass items hit absent]
  have "\<exists>pages. pages \<noteq> [] \<and>
      search_in_law py_lower (ascii ''ab'') (ascii ''all'') no_pages_law =
        Some (Inr (Some \<lparr>res_title = [0x5211, 0x6CD5], res_year = YearStr (ascii ''1997''),
                          res_filename = [0x5211, 0x6CD5] @ ascii ''_1997.docx'',
                          res_total_pages = 1, res_matched_pages = pages,
                          res_total_matches = sum_list (map match_count pages)\<rparr>))"
    by (simp only: fields option.case)
  with kw pass items hit absent show ?thesis by (intro conjI)
qed

section \<open>C8: what the structurer accumulates\<close>

text \<open>
  The claim in the words of the spec. \<open>page_lines\<close> is the document as the loops
  read it: the trimmed lines of the pages that are not blank, in order, each with
  the 1-based number of its page. \<open>body_lines\<close> is the text an article gathers
  from the lines after its marker: every non-empty line with a space after it, up
  to the next marker. \<open>structured\<close> is the list of units: a chapter is its marker
  line and nothing more, an article is its marker line, a space and its body.
\<close>

definition chapter_line :: "pstr \<Rightarrow> bool" where
  "chapter_line l \<longleftrightarrow> DI \<in> set l \<and> ZHANG \<in> set l"

definition article_line :: "pstr \<Rightarrow> bool" where
  "article_line l \<longleftrightarrow> DI \<in> set l \<and> TIAO \<in> set l"

definition page_lines :: "pstr list \<Rightarrow> (pstr \<times> nat) list" where
  "page_lines pages =
     concat (map (\<lambda>(page_num, text).
                    if py_strip text \<noteq> []
                    then map (\<lambda>raw. (py_strip raw, page_num + 1)) (py_split 0x0A text)
                    else [])
                 (enumerate 0 pages))"

fun body_lines :: "(pstr \<times> nat) list \<Rightarrow> pstr" where
  "body_lines [] = []"
| "body_lines ((l, p) # rest) =
     (if chapter_line l \<or> article_line l then []
      else if l = [] then body_lines rest
      else l @ [0x20] @ body_lines rest)"

fun structured :: "(pstr \<times> nat) list \<Rightarrow> item list" where
  "structured [] = []"
| "structured ((l, p) # rest) =
     (if chapter_line l then
        \<lparr>item_type = Chapter, item_content = l, item_page = p\<rparr> # structured rest
      else if article_line l then
        \<lparr>item_type = Article, item_content = l @ [0x20] @ body_lines rest, item_page = p\<rparr> #
        structured rest
      else structured rest)"

text \<open>The body of the inner loop on a trimmed line and a 1-based page number.\<close>

definition feed :: "parse_state \<Rightarrow> pstr \<times> nat \<Rightarrow> parse_state" where
  "feed st lp = (case lp of (line, page) \<Rightarrow>
      if chapter_line line then
           \<lparr>articles = articles st @
              [\<lparr>item_type = Chapter, item_content = line, item_page = page\<rparr>],
            current_article = None\<rparr>
         else if article_line line then
           \<lparr>articles = articles st @
              [\<lparr>item_type = Article, item_content = line @ [0x20], item_page = page\<rparr>],
            current_article = Some (length (articles st))\<rparr>
         else (case current_article st of
                 None \<Rightarrow> st
               | Some i \<Rightarrow>
                   if line \<noteq> [] then
                     st\<lparr>articles := (articles st)
                          [i := (articles st ! i)
                             \<lparr>item_content := item_content (articles st ! i) @ line @ [0x20]\<rparr>]\<rparr>
                   else st))"

lemma process_line_feed:
  "process_line page_num st raw = feed st (py_strip raw, page_num + 1)"
  by (simp add: process_line_def feed_def Let_def chapter_line_def article_line_def)

lemma foldl_process_line:
  "foldl (process_line page_num) st raws =
     foldl feed st (map (\<lambda>raw. (py_strip raw, page_num + 1)) raws)"
  by (induction raws arbitrary: st) (simp_all add: process_line_feed)

lemma foldl_process_page:
  "foldl process_page st (enumerate k pages) =
     foldl feed st
       (concat (map (\<lambda>(page_num, text).
                    if py_strip text \<noteq> []
                    then map (\<lambda>raw. (py_strip raw, page_num + 1)) (py_split 0x0A text)
                    else [])
                 (enumerate k pages)))"
  by (induction pages arbitrary: st k) (simp_all add: process_page_def foldl_process_line)

lemma process_pages_feed:
  "process_pages pages = foldl feed \<lparr>articles = [], current_article = None\<rparr> (page_lines pages)"
  by (simp add: process_pages_def page_lines_def foldl_process_page)

text \<open>
  The invariant: the article \<open>current_article\<close> refers to is the last element of
  \<open>articles\<close>. \<open>extended st t\<close> is \<open>articles st\<close> with \<open>t\<close> appended to that article.
\<close>

definition extended :: "parse_state \<Rightarrow> pstr \<Rightarrow> item list" where
  "extended st tail_text =
     (case current_article st of
        None \<Rightarrow> articles st
      | Some i \<Rightarrow>
          butlast (articles st) @
          [(last (articles st))\<lparr>item_content := item_content (last (articles st)) @ tail_text\<rparr>])"

definition points_to_last :: "parse_state \<Rightarrow> bool" where
  "points_to_last st \<longleftrightarrow>
     (case current_article st of None \<Rightarrow> True | Some i \<Rightarrow> Suc i = length (articles st))"

lemma foldl_feed_structured:
  "points_to_last st \<Longrightarrow>
     articles (foldl feed st ls) = extended st (body_lines ls) @ structured ls"
proof (induction ls arbitrary: st)
  case Nil
  then show ?case
    by (cases "articles st" rule: rev_cases)
       (auto simp: extended_def points_to_last_def split: option.splits)
next
  case (Cons lp ls)
  obtain l p where lp: "lp = (l, p)" by (cases lp)
  consider (is_chapter) "chapter_line l"
    | (is_article) "\<not> chapter_line l" "article_line l"
    | (continue) i where "\<not> chapter_line l" "\<not> article_line l" "current_article st = Some i" "l \<noteq> []"
    | (skip) "\<not> chapter_line l" "\<not> article_line l" "current_article st = None \<or> l = []"
    by (cases "current_article st") auto
  then show ?case
  proof cases
    case is_chapter
    let ?st = "feed st (l, p)"
    have st': "?st = \<lparr>articles = articles st @
              [\<lparr>item_type = Chapter, item_content = l, item_page = p\<rparr>],
            current_article = None\<rparr>"
      using is_chapter by (simp add: feed_def)
    have "points_to_last ?st" by (simp add: st' points_to_last_def)
    from Cons.IH [OF this] have "articles (foldl feed ?st ls) =
        articles st @ [\<lparr>item_type = Chapter, item_content = l, item_page = p\<rparr>] @ structured ls"
      by (simp add: st' extended_def)
    moreover have "extended st (body_lines (lp # ls)) = articles st"
      using is_chapter Cons.prems
      by (cases "articles st" rule: rev_cases)
         (auto simp: lp extended_def points_to_last_def split: option.splits)
    ultimately show ?thesis using is_chapter by (simp add: lp)
  next
    case is_article
    let ?st = "feed st (l, p)"
    have st': "?st = \<lparr>articles = articles st @
              [\<lparr>item_type = Article, item_content = l @ [0x20], item_page = p\<rparr>],
            current_article = Some (length (articles st))\<rparr>"
      using is_article by (simp add: feed_def)
    have "points_to_last ?st" by (simp add: st' points_to_last_def)
    from Cons.IH [OF this] have "articles (foldl feed ?st ls) =
        articles st @
        [\<lparr>item_type = Article, item_content = l @ [0x20] @ body_lines ls, item_page = p\<rparr>] @
        structured ls"
      by (simp add: st' extended_def)
    moreover have "extended st (body_lines (lp # ls)) = articles st"
      using is_article Cons.prems
      by (cases "articles st" rule: rev_cases)
         (auto simp: lp extended_def points_to_last_def split: option.splits)
    ultimately show ?thesis using is_article by (simp add: lp)
  next
    case continue
    from Cons.prems continue(3) have len: "Suc i = length (articles st)"
      by (simp add: points_to_last_def)
    then obtain front a where arts: "articles st = front @ [a]" and i: "i = length front"
      by (cases "articles st" rule: rev_cases) auto
    let ?st = "feed st (l, p)"
    have st': "?st = st\<lparr>articles := front @ [a\<lparr>item_content := item_content a @ l @ [0x20]\<rparr>]\<rparr>"
      using continue by (simp add: feed_def arts i)
    have "points_to_last ?st" using continue(3) by (simp add: st' points_to_last_def i)
    from Cons.IH [OF this] have "articles (foldl feed ?st ls) =
        front @ [a\<lparr>item_content := item_content a @ l @ [0x20] @ body_lines ls\<rparr>] @ structured ls"
      using continue(3) by (simp add: st' extended_def)
    moreover have "extended st (body_lines (lp # ls)) =
        front @ [a\<lparr>item_content := item_content a @ l @ [0x20] @ body_lines ls\<rparr>]"
      using continue by (simp add: lp extended_def arts)
    moreover have "structured (lp # ls) = structured ls" using continue by (simp add: lp)
    ultimately show ?thesis by (simp add: lp)
  next
    case skip
    have st': "feed st (l, p) = st"
      using skip by (auto simp: feed_def split: option.splits)
    have "body_lines (lp # ls) = body_lines ls \<or> current_article st = None"
      using skip by (auto simp: lp)
    then have "extended st (body_lines (lp # ls)) = extended st (body_lines ls)"
    proof
      assume "body_lines (lp # ls) = body_lines ls"
      then show ?thesis by (simp only:)
    next
      assume "current_article st = None"
      then show ?thesis by (simp add: extended_def)
    qed
    moreover have "structured (lp # ls) = structured ls" using skip by (simp add: lp)
    ultimately show ?thesis using Cons.IH [OF Cons.prems] by (simp add: lp st')
  qed
qed

lemma structured_chapter:
  "u \<in> set (structured ls) \<Longrightarrow> item_type u = Chapter \<Longrightarrow>
     (item_content u, item_page u) \<in> set ls \<and> chapter_line (item_content u)"
proof (induction ls)
  case Nil
  then show ?case by simp
next
  case (Cons lp ls)
  obtain l p where lp: "lp = (l, p)" by (cases lp)
  from Cons show ?case
    by (auto simp: lp split: if_splits)
qed

definition two_pages :: "pstr list" where
  "two_pages = [article_one @ [0x20, 0x5185, 0x5BB9, 0x41], [0x7EED, 0x884C, 0x42]]"

text \<open>
  C8. The units the structurer produces are those of \<open>structured\<close>: the text of a
  chapter is its marker line, and a chapter marker leaves no current article; the
  text of an article is its marker line followed by every later non-empty line
  that is no marker, across pages, up to the next marker.
\<close>

theorem articles_accumulate_until_next_marker:
  "articles (process_pages pages) = structured (page_lines pages) \<and>
   (\<forall>u \<in> set (articles (process_pages pages)).
      item_type u = Chapter \<longrightarrow>
        (item_content u, item_page u) \<in> set (page_lines pages)) \<and>
   (chapter_line (py_strip raw) \<longrightarrow> current_article (process_line page_num st raw) = None)"
proof -
  have "points_to_last \<lparr>articles = [], current_article = None\<rparr>"
    by (simp add: points_to_last_def)
  from foldl_feed_structured [OF this, of "page_lines pages"]
  have eq: "articles (process_pages pages) = structured (page_lines pages)"
    by (simp add: process_pages_feed extended_def)
  have "\<forall>u \<in> set (articles (process_pages pages)).
      item_type u = Chapter \<longrightarrow> (item_content u, item_page u) \<in> set (page_lines pages)"
    unfolding eq using structured_chapter by blast
  moreover have "chapter_line (py_strip raw) \<longrightarrow>
      current_article (process_line page_num st raw) = None"
    by (simp add: process_line_feed feed_def)
  ultimately show ?thesis using eq by blast
qed

theorem articles_accumulate_until_next_marker_witness:
  "articles (process_pages two_pages) =
     [\<lparr>item_type = Article,
       item_content = article_one @ [0x20, 0x5185, 0x5BB9, 0x41, 0x20, 0x7EED, 0x884C, 0x42, 0x20],
       item_page = 1\<rparr>] \<and>
   py_in [0x5185, 0x5BB9, 0x41]
     (article_one @ [0x20, 0x5185, 0x5BB9, 0x41, 0x20, 0x7EED, 0x884C, 0x42, 0x20]) \<and>
   py_in [0x7EED, 0x884C, 0x42]
     (article_one @ [0x20, 0x5185, 0x5BB9, 0x41, 0x20, 0x7EED, 0x884C, 0x42, 0x20])"
proof -
  have "structured (page_lines two_pages) =
     [\<lparr>item_type = Article,
       item_content = article_one @ [0x20, 0x5185, 0x5BB9, 0x41, 0x20, 0x7EED, 0x884C, 0x42, 0x20],
       item_page = 1\<rparr>]"
    by (simp add: page_lines_def two_pages_def py_strip_def is_space_def chapter_line_def
          article_line_def article_one_def DI_def TIAO_def ZHANG_def)
  with articles_accumulate_until_next_marker [of two_pages "[]" 0 "\<lparr>articles = [], current_article = None\<rparr>"]
  show ?thesis
    by (simp add: article_one_def DI_def TIAO_def)
qed

section \<open>C7: when the structurer returns a record\<close>

lemma py_strip_keeps:
  assumes "\<not> is_space c"
  shows "c \<in> set (py_strip s) \<longleftrightarrow> c \<in> set s"
proof -
  have keep: "c \<in> set (dropWhile is_space xs) \<longleftrightarrow> c \<in> set xs" for xs
  proof
    assume "c \<in> set (dropWhile is_space xs)"
    then show "c \<in> set xs" by (rule set_dropWhileD)
  next
    assume "c \<in> set xs"
    then show "c \<in> set (dropWhile is_space xs)"
      using assms by (induction xs) auto
  qed
  show ?thesis by (simp add: py_strip_def keep)
qed

lemma glyphs_not_space: "\<not> is_space DI" "\<not> is_space ZHANG" "\<not> is_space TIAO"
  by (simp_all add: is_space_def DI_def ZHANG_def TIAO_def)

lemma marker_strip:
  "chapter_line (py_strip l) = chapter_line l" "article_line (py_strip l) = article_line l"
  by (simp_all add: chapter_line_def article_line_def py_strip_keeps glyphs_not_space)

lemma py_strip_empty_all_space:
  assumes "py_strip s = []"
  shows "\<forall>c \<in> set s. is_space c"
proof (rule ccontr)
  assume "\<not> (\<forall>c \<in> set s. is_space c)"
  then obtain c where "c \<in> set s" "\<not> is_space c" by blast
  with py_strip_keeps [of c s] assms show False by simp
qed

lemma py_split_chars: "l \<in> set (py_split sep s) \<Longrightarrow> set l \<subseteq> set s"
proof (induction s arbitrary: l)
  case Nil
  then show ?case by simp
next
  case (Cons c cs)
  show ?case
  proof (cases "c = sep")
    case True
    with Cons show ?thesis by auto
  next
    case False
    show ?thesis
    proof (cases "py_split sep cs")
      case Nil
      with False Cons.prems show ?thesis by simp
    next
      case (Cons w ws)
      with False Cons.prems have "l = c # w \<or> l \<in> set ws" by simp
      then show ?thesis
      proof
        assume "l = c # w"
        moreover from Cons have "w \<in> set (py_split sep cs)" by simp
        ultimately show ?thesis using Cons.IH [of w] by auto
      next
        assume "l \<in> set ws"
        with Cons have "l \<in> set (py_split sep cs)" by simp
        with Cons.IH [of l] show ?thesis by auto
      qed
    qed
  qed
qed

lemma structured_empty_iff:
  "structured ls = [] \<longleftrightarrow> (\<forall>lp \<in> set ls. \<not> chapter_line (fst lp) \<and> \<not> article_line (fst lp))"
proof (induction ls)
  case Nil
  show ?case by simp
next
  case (Cons lp ls)
  obtain l p where lp: "lp = (l, p)" by (cases lp)
  from Cons show ?case by (simp add: lp)
qed

text \<open>
  A chapter or article marker in the words of the claim: a line with the glyph
  \<open>DI\<close> together with \<open>TIAO\<close> or \<open>ZHANG\<close>.
\<close>

definition marker_line :: "pstr \<Rightarrow> bool" where
  "marker_line l \<longleftrightarrow> DI \<in> set l \<and> (TIAO \<in> set l \<or> ZHANG \<in> set l)"

lemma marker_line_iff: "marker_line l \<longleftrightarrow> chapter_line l \<or> article_line l"
  by (auto simp: marker_line_def chapter_line_def article_line_def)

lemma page_lines_marker:
  "(\<exists>lp \<in> set (concat (map (\<lambda>(page_num, text).
                    if py_strip text \<noteq> []
                    then map (\<lambda>raw. (py_strip raw, page_num + 1)) (py_split 0x0A text)
                    else [])
                 (enumerate k pages))). marker_line (fst lp)) \<longleftrightarrow>
   (\<exists>page \<in> set pages. \<exists>raw \<in> set (py_split 0x0A page). marker_line raw)"
proof (induction pages arbitrary: k)
  case Nil
  show ?case by simp
next
  case (Cons page pages)
  have here: "(\<exists>lp \<in> set (if py_strip page \<noteq> []
                    then map (\<lambda>raw. (py_strip raw, k + 1)) (py_split 0x0A page)
                    else []). marker_line (fst lp)) \<longleftrightarrow>
              (\<exists>raw \<in> set (py_split 0x0A page). marker_line raw)"
  proof (cases "py_strip page = []")
    case True
    have "\<not> marker_line raw" if "raw \<in> set (py_split 0x0A page)" for raw
    proof
      assume "marker_line raw"
      then have "DI \<in> set raw" by (simp add: marker_line_def)
      with py_split_chars [OF that] have "DI \<in> set page" by auto
      with py_strip_empty_all_space [OF True] glyphs_not_space(1) show False by blast
    qed
    with True show ?thesis by auto
  next
    case False
    then show ?thesis
      by (auto simp: marker_line_iff marker_strip)
  qed
  show ?case
    using Cons.IH [of "Suc k"] here by (simp add: bex_Un) 
qed

lemma process_pages_empty_iff:
  "articles (process_pages pages) = [] \<longleftrightarrow>
     \<not> (\<exists>page \<in> set pages. \<exists>raw \<in> set (py_split 0x0A page). marker_line raw)"
proof -
  have "articles (process_pages pages) = [] \<longleftrightarrow>
          \<not> (\<exists>lp \<in> set (page_lines pages). marker_line (fst lp))"
    using foldl_feed_structured [of "\<lparr>articles = [], current_article = None\<rparr>" "page_lines pages"]
    by (simp add: process_pages_feed extended_def points_to_last_def structured_empty_iff
          marker_line_iff)
  then show ?thesis
    unfolding page_lines_def page_lines_marker .
qed

text \<open>
  What the loop of \<open>build_index\<close> computes: the records of the accepted files that
  yield one, and the names of the accepted files that yield none, both in the
  order of the listing.
\<close>

lemma index_files_eq:
  "index_files lower y index_data invalid_files entries =
     (index_data @ List.map_filter (\<lambda>(n, f). extract_pdf_content y n f)
                     (filter (\<lambda>(n, f). accepted lower n) entries),
      invalid_files @ map fst (filter (\<lambda>(n, f). accepted lower n \<and>
                                          extract_pdf_content y n f = None) entries))"
proof (induction entries arbitrary: index_data invalid_files)
  case Nil
  show ?case by simp
next
  case (Cons e entries)
  obtain n f where e: "e = (n, f)" by (cases e)
  show ?case
    by (cases "extract_pdf_content y n f") (simp_all add: e Cons.IH)
qed

lemma extract_pdf_content_raises:
  "file_pages file = None \<or> file_mtime file = None \<Longrightarrow>
     extract_pdf_content this_year filename file = None"
  by (auto simp: extract_pdf_content_def Let_def split: option.splits)

lemma build_index_eq:
  "build_index lower y now (Some entries) =
     (List.map_filter (\<lambda>(n, f). extract_pdf_content y n f)
        (filter (\<lambda>(n, f). accepted lower n) entries),
      Some \<lparr>idx_metadata =
              \<lparr>meta_index_date = now,
               meta_total_count =
                 length (List.map_filter (\<lambda>(n, f). extract_pdf_content y n f)
                           (filter (\<lambda>(n, f). accepted lower n) entries)),
               meta_source = [0x672C, 0x5730, 0x6587, 0x4EF6],
               meta_invalid_files =
                 map fst (filter (\<lambda>(n, f). accepted lower n \<and>
                                          extract_pdf_content y n f = None) entries)\<rparr>,
            idx_laws = List.map_filter (\<lambda>(n, f). extract_pdf_content y n f)
                         (filter (\<lambda>(n, f). accepted lower n) entries)\<rparr>)"
  by (simp add: build_index_def index_files_eq)

text \<open>
  A file of two pages with an article, a file with no marker, and a file that
  cannot be opened.
\<close>

definition good_file :: source_file where
  "good_file = \<lparr>file_pages = Some two_pages, file_mtime = Some (ascii ''2024-01-01'')\<rparr>"

definition plain_file :: source_file where
  "plain_file = \<lparr>file_pages = Some [ascii ''abc''], file_mtime = Some (ascii ''2024-01-01'')\<rparr>"

definition broken_file :: source_file where
  "broken_file = \<lparr>file_pages = None, file_mtime = Some (ascii ''2024-01-01'')\<rparr>"

text \<open>
  C7. For a document whose pages and modification time can be read,
  \<open>extract_pdf_content\<close> returns a record with non-empty content exactly when some
  line of some page is a marker. When no line is, it returns \<open>None\<close>, and
  \<open>build_index\<close> puts the name of the file, if it has an accepted extension, into
  \<open>invalid_files\<close>.
\<close>

theorem structurer_succeeds_iff_marker:
  assumes "file_pages file = Some pages" and "file_mtime file = Some modified"
  shows "((\<exists>d a. extract_pdf_content this_year filename file = Some d \<and>
                 law_content d = Some a \<and> a \<noteq> []) \<longleftrightarrow>
          (\<exists>page \<in> set pages. \<exists>raw \<in> set (py_split 0x0A page). marker_line raw)) \<and>
         (\<not> (\<exists>page \<in> set pages. \<exists>raw \<in> set (py_split 0x0A page). marker_line raw) \<longrightarrow>
            extract_pdf_content this_year filename file = None \<and>
            (accepted lower filename \<longrightarrow>
               (\<exists>index_data artifact.
                  build_index lower this_year now (Some (before @ (filename, file) # after)) =
                    (index_data, Some artifact) \<and>
                  filename \<in> set (meta_invalid_files (idx_metadata artifact)))))"
proof -
  let ?marker = "\<exists>page \<in> set pages. \<exists>raw \<in> set (py_split 0x0A page). marker_line raw"
  have some: "\<exists>d a. extract_pdf_content this_year filename file = Some d \<and>
                 law_content d = Some a \<and> a \<noteq> []" if ?marker
    using that assms process_pages_empty_iff [of pages]
    by (simp add: extract_pdf_content_def Let_def)
  have none: "extract_pdf_content this_year filename file = None" if "\<not> ?marker"
    using that assms process_pages_empty_iff [of pages]
    by (simp add: extract_pdf_content_def Let_def)
  have inv: "\<exists>index_data artifact.
                  build_index lower this_year now (Some (before @ (filename, file) # after)) =
                    (index_data, Some artifact) \<and>
                  filename \<in> set (meta_invalid_files (idx_metadata artifact))"
    if "\<not> ?marker" "accepted lower filename"
    using none [OF that(1)] that(2) by (simp add: build_index_eq)
  from some none inv show ?thesis by (metis option.distinct(1))
qed

lemmas structure_defs = extract_pdf_content_def process_pages_def process_page_def
  process_line_def Let_def py_strip_def is_space_def splitext_root_def two_pages_def
  article_one_def DI_def TIAO_def ZHANG_def ascii_def good_file_def plain_file_def
  broken_file_def accepted_def marker_line_def suffix_to_prefix

theorem structurer_succeeds_iff_marker_witness:
  "file_pages good_file = Some two_pages \<and>
   file_mtime good_file = Some (ascii ''2024-01-01'') \<and>
   (\<exists>d a. extract_pdf_content 2024 (ascii ''a_2020.pdf'') good_file = Some d \<and>
          law_content d = Some a \<and> a \<noteq> []) \<and>
   law_title (the (extract_pdf_content 2024 (ascii ''a_2020.pdf'') good_file)) =
     Some (ascii ''a'') \<and>
   file_pages plain_file = Some [ascii ''abc''] \<and>
   extract_pdf_content 2024 (ascii ''b.pdf'') plain_file = None \<and>
   (\<exists>index_data artifact.
      build_index py_lower 2024 (ascii ''2024-01-02 03:04:05'')
        (Some ([] @ (ascii ''b.pdf'', plain_file) # [])) = (index_data, Some artifact) \<and>
      ascii ''b.pdf'' \<in> set (meta_invalid_files (idx_metadata artifact)))"
proof -
  have g1: "file_pages good_file = Some two_pages"
    and g2: "file_mtime good_file = Some (ascii ''2024-01-01'')"
    by (simp_all add: good_file_def)
  have p1: "file_pages plain_file = Some [ascii ''abc'']"
    and p2: "file_mtime plain_file = Some (ascii ''2024-01-01'')"
    by (simp_all add: plain_file_def)
  have yes: "\<exists>page \<in> set two_pages. \<exists>raw \<in> set (py_split 0x0A page). marker_line raw"
    by (simp add: structure_defs)
  have no: "\<not> (\<exists>page \<in> set [ascii ''abc'']. \<exists>raw \<in> set (py_split 0x0A page). marker_line raw)"
    by (simp add: structure_defs)
  have acc: "accepted py_lower (ascii ''b.pdf'')"
    by (simp add: structure_defs py_lower_def py_lower_char_def)
  have title: "law_title (the (extract_pdf_content 2024 (ascii ''a_2020.pdf'') good_file)) =
     Some (ascii ''a'')"
    by (simp add: structure_defs)
  from structurer_succeeds_iff_marker [OF g1 g2, of 2024 "ascii ''a_2020.pdf''"] yes
  have a: "\<exists>d a. extract_pdf_content 2024 (ascii ''a_2020.pdf'') good_file = Some d \<and>
          law_content d = Some a \<and> a \<noteq> []"
    by blast
  from structurer_succeeds_iff_marker [OF p1 p2, of 2024 "ascii ''b.pdf''" py_lower
         "ascii ''2024-01-02 03:04:05''" "[]" "[]"] no acc
  have b: "extract_pdf_content 2024 (ascii ''b.pdf'') plain_file = None"
    and c: "\<exists>index_data artifact.
      build_index py_lower 2024 (ascii ''2024-01-02 03:04:05'')
        (Some ([] @ (ascii ''b.pdf'', plain_file) # [])) = (index_data, Some artifact) \<and>
      ascii ''b.pdf'' \<in> set (meta_invalid_files (idx_metadata artifact))"
    by blast+
  from g1 g2 a title p1 b c show ?thesis by (intro conjI)
qed

section \<open>C9: a file that cannot be read\<close>

text \<open>
  C9. When opening a file, reading its pages or reading its modification time
  raises, \<open>extract_pdf_content\<close> returns \<open>None\<close>. The build still returns and writes
  the index, the name of the file is in \<open>invalid_files\<close>, and the list of laws is
  the list the build gives for the directory without that file.
\<close>

theorem build_index_isolates_failure:
  assumes "file_pages file = None \<or> file_mtime file = None"
    and "accepted lower filename"
  shows "extract_pdf_content this_year filename file = None \<and>
         (\<exists>index_data artifact.
            build_index lower this_year now (Some (before @ (filename, file) # after)) =
              (index_data, Some artifact) \<and>
            filename \<in> set (meta_invalid_files (idx_metadata artifact)) \<and>
            idx_laws artifact = index_data \<and>
            index_data = fst (build_index lower this_year now (Some (before @ after))))"
proof -
  have none: "extract_pdf_content this_year filename file = None"
    by (rule extract_pdf_content_raises [OF assms(1)])
  with assms(2) show ?thesis
    by (simp add: build_index_eq List.map_filter_def)
qed

text \<open>
  A directory with two readable documents, one that cannot be opened, and one
  file whose extension is not accepted.
\<close>

definition example_dir :: "(pstr \<times> source_file) list" where
  "example_dir =
     [(ascii ''a_2020.pdf'', good_file)] @ (ascii ''bad.PDF'', broken_file) #
     [(ascii ''c_2021.docx'', good_file), (ascii ''notes.txt'', broken_file)]"

theorem build_index_isolates_failure_witness:
  "file_pages broken_file = None \<and>
   accepted py_lower (ascii ''bad.PDF'') \<and>
   (\<exists>index_data artifact.
      build_index py_lower 2024 (ascii ''2024-01-02 03:04:05'') (Some example_dir) =
        (index_data, Some artifact) \<and>
      meta_invalid_files (idx_metadata artifact) = [ascii ''bad.PDF''] \<and>
      map law_filename index_data = [Some (ascii ''a_2020.pdf''), Some (ascii ''c_2021.docx'')] \<and>
      ascii ''bad.PDF'' \<in> set (meta_invalid_files (idx_metadata artifact)) \<and>
      idx_laws artifact = index_data \<and>
      index_data =
        fst (build_index py_lower 2024 (ascii ''2024-01-02 03:04:05'')
               (Some ([(ascii ''a_2020.pdf'', good_file)] @
                      [(ascii ''c_2021.docx'', good_file), (ascii ''notes.txt'', broken_file)]))))"
proof -
  have raise: "file_pages broken_file = None \<or> file_mtime broken_file = None"
    and raise': "file_pages broken_file = None"
    by (simp_all add: broken_file_def)
  have acc: "accepted py_lower (ascii ''bad.PDF'')"
    by (simp add: structure_defs py_lower_def py_lower_char_def)
  from build_index_isolates_failure [OF raise acc, of 2024 "ascii ''2024-01-02 03:04:05''"
         "[(ascii ''a_2020.pdf'', good_file)]"
         "[(ascii ''c_2021.docx'', good_file), (ascii ''notes.txt'', broken_file)]"]
  obtain index_data artifact where
    run: "build_index py_lower 2024 (ascii ''2024-01-02 03:04:05'') (Some example_dir) =
            (index_data, Some artifact)"
    and inv: "ascii ''bad.PDF'' \<in> set (meta_invalid_files (idx_metadata artifact))"
    and laws: "idx_laws artifact = index_data"
    and same: "index_data =
        fst (build_index py_lower 2024 (ascii ''2024-01-02 03:04:05'')
               (Some ([(ascii ''a_2020.pdf'', good_file)] @
                      [(ascii ''c_2021.docx'', good_file), (ascii ''notes.txt'', broken_file)])))"
    unfolding example_dir_def by blast
  have ev: "\<exists>index_data artifact.
      build_index py_lower 2024 (ascii ''2024-01-02 03:04:05'') (Some example_dir) =
        (index_data, Some artifact) \<and>
      meta_invalid_files (idx_metadata artifact) = [ascii ''bad.PDF''] \<and>
      map law_filename index_data = [Some (ascii ''a_2020.pdf''), Some (ascii ''c_2021.docx'')]"
    by (simp add: build_index_def example_dir_def structure_defs py_lower_def py_lower_char_def)
  with run have files: "meta_invalid_files (idx_metadata artifact) = [ascii ''bad.PDF'']"
    and names: "map law_filename index_data =
                  [Some (ascii ''a_2020.pdf''), Some (ascii ''c_2021.docx'')]"
    by auto
  from run files names inv laws same
  have "build_index py_lower 2024 (ascii ''2024-01-02 03:04:05'') (Some example_dir) =
        (index_data, Some artifact) \<and>
      meta_invalid_files (idx_metadata artifact) = [ascii ''bad.PDF''] \<and>
      map law_filename index_data = [Some (ascii ''a_2020.pdf''), Some (ascii ''c_2021.docx'')] \<and>
      ascii ''bad.PDF'' \<in> set (meta_invalid_files (idx_metadata artifact)) \<and>
      idx_laws artifact = index_data \<and>
      index_data =
        fst (build_index py_lower 2024 (ascii ''2024-01-02 03:04:05'')
               (Some ([(ascii ''a_2020.pdf'', good_file)] @
                      [(ascii ''c_2021.docx'', good_file), (ascii ''notes.txt'', broken_file)])))"
    by (intro conjI)
  then have "\<exists>index_data artifact.
      build_index py_lower 2024 (ascii ''2024-01-02 03:04:05'') (Some example_dir) =
        (index_data, Some artifact) \<and>
      meta_invalid_files (idx_metadata artifact) = [ascii ''bad.PDF''] \<and>
      map law_filename index_data = [Some (ascii ''a_2020.pdf''), Some (ascii ''c_2021.docx'')] \<and>
      ascii ''bad.PDF'' \<in> set (meta_invalid_files (idx_metadata artifact)) \<and>
      idx_laws artifact = index_data \<and>
      index_data =
        fst (build_index py_lower 2024 (ascii ''2024-01-02 03:04:05'')
               (Some ([(ascii ''a_2020.pdf'', good_file)] @
                      [(ascii ''c_2021.docx'', good_file), (ascii ''notes.txt'', broken_file)])))"
    by (intro exI)
  with raise' acc show ?thesis by (intro conjI)
qed

end
